theory Spec2Isabelle
  imports Complex_Main "HOL-Library.AList"
begin

section \<open>ImageFlow gallery: caches, layout, culling and navigation\<close>

text \<open>
  The development follows the most evolved variant of the viewer (the second
  \<open>ImageGallery\<close> class of the unnamed source part).  Python integers are \<open>int\<close>,
  a finite Python float is the rational it denotes, and the divisions that produce aspect
  ratios and pixel heights round to binary64 as the interpreter does; insertion-ordered
  dictionaries are association lists whose update keeps the position of an existing key,
  and the Tk widgets and the PIL decoder are parameters of the functions that consult
  them.
\<close>

subsection \<open>Python helpers\<close>

text \<open>\<open>int(x)\<close> on a float truncates towards zero.\<close>

definition py_int :: "rat \<Rightarrow> int" where
  "py_int x = (if 0 \<le> x then \<lfloor>x\<rfloor> else \<lceil>x\<rceil>)"

datatype py_error = ZeroDivisionError | OverflowError

subsection \<open>Float arithmetic\<close>

text \<open>
  A Python float is an IEEE 754 binary64 number.  A finite one is kept as the rational it
  denotes; \<open>round_double\<close> is rounding to the nearest double, ties to even, with the
  subnormal range below \<open>2\<^sup>-\<^sup>1\<^sup>0\<^sup>2\<^sup>2\<close>, and is \<open>None\<close> when the rounded magnitude reaches
  \<open>2\<^sup>1\<^sup>0\<^sup>2\<^sup>4\<close> (overflow).  \<open>bit_length\<close> is \<open>int.bit_length\<close>, \<open>ilog2 a\<close> the exponent \<open>e\<close>
  with \<open>2\<^sup>e \<le> a < 2\<^sup>e\<^sup>+\<^sup>1\<close> for a positive \<open>a\<close>.
\<close>

fun bit_length :: "nat \<Rightarrow> nat" where
  "bit_length n = (if n = 0 then 0 else Suc (bit_length (n div 2)))"

declare bit_length.simps [simp del]

definition pow2 :: "int \<Rightarrow> rat" where
  "pow2 k = (if 0 \<le> k then of_int (2 ^ nat k) else 1 / of_int (2 ^ nat (- k)))"

definition ilog2 :: "rat \<Rightarrow> int" where
  "ilog2 a = (if 1 \<le> a then int (bit_length (nat \<lfloor>a\<rfloor>)) - 1
              else - int (bit_length (nat (\<lceil>1 / a\<rceil> - 1))))"

definition round_half_even :: "rat \<Rightarrow> int" where
  "round_half_even y =
     (let f = \<lfloor>y\<rfloor>; r = y - of_int f
      in if r < 1 / 2 then f else if 1 / 2 < r then f + 1 else if even f then f else f + 1)"

definition round_double :: "rat \<Rightarrow> rat option" where
  "round_double x =
     (if x = 0 then Some 0
      else let a = \<bar>x\<bar>;
               k = max (ilog2 a) (- 1022) - 52;
               r = of_int (round_half_even (a / pow2 k)) * pow2 k
           in if pow2 1024 \<le> r then None else Some (if x < 0 then - r else r))"

text \<open>
  \<open>a / b\<close> on two integers is the correctly rounded quotient; it raises
  \<open>ZeroDivisionError\<close> for a zero divisor and \<open>OverflowError\<close> when the quotient is too large
  for a float.
\<close>

definition int_truediv :: "int \<Rightarrow> int \<Rightarrow> py_error + rat" where
  "int_truediv a b =
     (if b = 0 then Inl ZeroDivisionError
      else case round_double (of_int a / of_int b) of
             None \<Rightarrow> Inl OverflowError
           | Some q \<Rightarrow> Inr q)"

text \<open>
  \<open>n / x\<close> on an integer and a float converts \<open>n\<close> first (\<open>OverflowError\<close> when it is too
  large), raises \<open>ZeroDivisionError\<close> for \<open>x = 0.0\<close> and rounds the quotient.  An infinite
  quotient is no exception yet, but both uses hand the quotient straight to \<open>int\<close>, which
  raises \<open>OverflowError\<close> on it; \<open>float_truediv\<close> reports that error at once.
  \<open>py_int_div n x\<close> is \<open>int(n / x)\<close>.
\<close>

definition float_truediv :: "int \<Rightarrow> rat \<Rightarrow> py_error + rat" where
  "float_truediv n x =
     (case round_double (of_int n) of
        None \<Rightarrow> Inl OverflowError
      | Some fn \<Rightarrow>
          if x = 0 then Inl ZeroDivisionError
          else case round_double (fn / x) of
                 None \<Rightarrow> Inl OverflowError
               | Some q \<Rightarrow> Inr q)"

definition py_int_div :: "int \<Rightarrow> rat \<Rightarrow> py_error + int" where
  "py_int_div n x = (case float_truediv n x of Inl e \<Rightarrow> Inl e | Inr q \<Rightarrow> Inr (py_int q))"

subsection \<open>FastImageCache\<close>

text \<open>
  \<open>self.cache\<close> is an \<open>OrderedDict\<close>: the list below holds its items from the oldest
  position to the newest.  Assigning to a key that is present replaces the value where it
  stands, assigning to a new key appends (\<open>AList.update\<close>); \<open>move_to_end\<close> deletes the item
  and appends it; \<open>popitem(last=False)\<close> drops the head.  Every method body runs under the
  instance lock, so each call is one atomic step.
\<close>

record ('k, 'v) FastImageCache =
  cache :: "('k \<times> 'v) list"
  max_size :: int

definition new_cache :: "int \<Rightarrow> ('k, 'v) FastImageCache" where
  "new_cache m = \<lparr>cache = [], max_size = m\<rparr>"

definition get :: "('k, 'v) FastImageCache \<Rightarrow> 'k \<Rightarrow> 'v option \<times> ('k, 'v) FastImageCache" where
  "get c key =
     (case map_of (cache c) key of
        Some v \<Rightarrow> (Some v, c\<lparr>cache := AList.delete key (cache c) @ [(key, v)]\<rparr>)
      | None \<Rightarrow> (None, c))"

definition put :: "('k, 'v) FastImageCache \<Rightarrow> 'k \<Rightarrow> 'v \<Rightarrow> ('k, 'v) FastImageCache" where
  "put c key val =
     (let items = AList.update key val (cache c)
      in if int (length items) > max_size c then c\<lparr>cache := tl items\<rparr>
         else c\<lparr>cache := items\<rparr>)"

definition keys :: "('k, 'v) FastImageCache \<Rightarrow> 'k list" where
  "keys c = map fst (cache c)"

text \<open>A client's calls, and running a sequence of them.\<close>

datatype ('k, 'v) cache_op = Get 'k | Put 'k 'v

fun apply_op :: "('k, 'v) FastImageCache \<Rightarrow> ('k, 'v) cache_op \<Rightarrow> ('k, 'v) FastImageCache" where
  "apply_op c (Get k) = snd (get c k)"
| "apply_op c (Put k v) = put c k v"

definition run :: "('k, 'v) FastImageCache \<Rightarrow> ('k, 'v) cache_op list \<Rightarrow> ('k, 'v) FastImageCache" where
  "run c ops = foldl apply_op c ops"

text \<open>The key a \<open>put\<close> evicts, if it evicts one.\<close>

definition evicted :: "('k, 'v) FastImageCache \<Rightarrow> 'k \<Rightarrow> 'v \<Rightarrow> 'k option" where
  "evicted c key val =
     (let items = AList.update key val (cache c)
      in if int (length items) > max_size c then Some (fst (hd items)) else None)"

text \<open>
  Recency as the specification words it: an entry is accessed by a \<open>get\<close> that hits it and
  by a \<open>put\<close> on its key (insertion or overwrite).  \<open>access_log\<close> lists the accessed keys in
  time order, \<open>age\<close> counts the accesses since a key's last one, and the
  least-recently-accessed entry among \<open>ks\<close> is one of greatest age.
\<close>

fun access_log :: "('k, 'v) FastImageCache \<Rightarrow> ('k, 'v) cache_op list \<Rightarrow> 'k list" where
  "access_log c [] = []"
| "access_log c (Get k # ops) =
     (if k \<in> set (keys c) then [k] else []) @ access_log (apply_op c (Get k)) ops"
| "access_log c (Put k v # ops) = k # access_log (apply_op c (Put k v)) ops"

definition age :: "'k list \<Rightarrow> 'k \<Rightarrow> nat" where
  "age acc k = length (takeWhile (\<lambda>x. x \<noteq> k) (rev acc))"

definition least_recently_accessed :: "'k list \<Rightarrow> 'k list \<Rightarrow> 'k \<Rightarrow> bool" where
  "least_recently_accessed acc ks k \<longleftrightarrow> k \<in> set ks \<and> list_all (\<lambda>k'. age acc k' \<le> age acc k) ks"

text \<open>The state a well-formed cache is in, and a batch of insertions.\<close>

definition cache_inv :: "('k, 'v) FastImageCache \<Rightarrow> bool" where
  "cache_inv c \<longleftrightarrow> distinct (keys c) \<and> int (length (keys c)) \<le> max_size c"

definition puts :: "('k \<times> 'v) list \<Rightarrow> ('k, 'v) cache_op list" where
  "puts kvs = map (\<lambda>(k, v). Put k v) kvs"

text \<open>
  Example traces: an overwrite between two insertions into a cache of size 2, and a full
  cache of size 2.
\<close>

definition lru_trace :: "(string, nat) cache_op list" where
  "lru_trace = [Put ''a'' 1, Put ''b'' 2, Put ''a'' 3]"

definition full2 :: "(string, nat) FastImageCache" where
  "full2 = \<lparr>cache = [(''k'', 1), (''a'', 2)], max_size = 2\<rparr>"

subsection \<open>The gallery and its collaborators\<close>

text \<open>
  The fields of \<open>ImageGallery\<close> that the modelled methods read or write.  A thumbnail is
  recorded by the size and the filter it was resampled with; the cache key
  \<open>f"{path}_{width}"\<close> is kept as the pair it is formatted from (the width prints without an
  underscore, so the formatting is injective).  \<open>aspect_decodes\<close> is instrumentation: the
  paths \<open>get_aspect_ratio_fast\<close> has handed to \<open>Image.open\<close>, in order.
\<close>

datatype resample = LANCZOS | BILINEAR

record image =
  path :: string
  name :: string
  selected :: bool

record thumb =
  thumb_size :: "int \<times> int"
  thumb_resample :: resample

type_synonym thumb_key = "string \<times> int"

type_synonym task = "string \<times> int \<times> int"

type_synonym result = "thumb_key \<times> thumb \<times> string"

type_synonym position = "int \<times> int \<times> int \<times> int"

record gallery =
  filtered_images :: "image list"
  current_index :: int
  zoom_level :: rat
  pan_x :: int
  pan_y :: int
  thumb_cache :: "(thumb_key, thumb) FastImageCache"
  aspect_cache :: "string \<rightharpoonup> rat"
  gap :: int
  num_columns :: int
  view_mode :: string
  image_positions :: "(string \<times> position) list"
  scrollregion :: "(int \<times> int \<times> int \<times> int) option"
  thumb_queue :: "task list"
  result_queue :: "result list"
  aspect_decodes :: "string list"

text \<open>
  What the Tk canvas answers (\<open>winfo_width\<close>, \<open>winfo_height\<close>, \<open>yview()[0]\<close>) and what PIL
  does: \<open>Image.open\<close> yields the size of the decoded image or raises (\<open>None\<close>), and
  \<open>resize\<close> may raise for a source size and a target size.
\<close>

record tk_canvas =
  winfo_width :: int
  winfo_height :: int
  yview_top :: rat

record pil =
  image_open :: "string \<Rightarrow> (int \<times> int) option"
  resize_raises :: "int \<times> int \<Rightarrow> int \<times> int \<Rightarrow> bool"

subsection \<open>Aspect ratio resolution\<close>

text \<open>
  The bare \<open>except\<close> catches a failing \<open>Image.open\<close> and a failing division (a zero height,
  an overflowing quotient) alike; neither stores anything.
\<close>

definition get_aspect_ratio_fast :: "pil \<Rightarrow> gallery \<Rightarrow> string \<Rightarrow> rat \<times> gallery" where
  "get_aspect_ratio_fast env g p =
     (case aspect_cache g p of
        Some r \<Rightarrow> (r, g)
      | None \<Rightarrow>
          (let g1 = g\<lparr>aspect_decodes := aspect_decodes g @ [p]\<rparr>
           in case image_open env p of
                None \<Rightarrow> (1, g1)
              | Some (w, h) \<Rightarrow>
                  (case int_truediv w h of
                     Inl e \<Rightarrow> (1, g1)
                   | Inr ratio \<Rightarrow> (ratio, g1\<lparr>aspect_cache := (aspect_cache g1)(p \<mapsto> ratio)\<rparr>))))"

fun resolve_all :: "pil list \<Rightarrow> string list \<Rightarrow> gallery \<Rightarrow> gallery" where
  "resolve_all (env # envs) (q # qs) g = resolve_all envs qs (snd (get_aspect_ratio_fast env g q))"
| "resolve_all _ _ g = g"

subsection \<open>Thumbnail worker\<close>

text \<open>
  The body of the worker loop for one task taken from \<open>thumb_queue\<close>; the blocking pop, its
  timeout, the stop flag and the sentinel are outside the model.  A cached PIL image is
  truthy, so the test is whether \<open>get\<close> found the key.  Everything from \<open>Image.open\<close> to
  the publication sits in one \<open>try\<close> whose handler is \<open>pass\<close>.
\<close>

definition make_thumb :: "int \<times> int \<Rightarrow> resample \<Rightarrow> thumb" where
  "make_thumb sz filt = \<lparr>thumb_size = sz, thumb_resample = filt\<rparr>"

definition thumbnail_worker :: "pil \<Rightarrow> gallery \<Rightarrow> task \<Rightarrow> gallery" where
  "thumbnail_worker env g task =
     (case task of (p, width, priority) \<Rightarrow>
        (case get (thumb_cache g) (p, width) of (hit, tc) \<Rightarrow>
           (let g1 = g\<lparr>thumb_cache := tc\<rparr>
            in if hit \<noteq> None then g1
               else (case image_open env p of
                       None \<Rightarrow> g1
                     | Some (w, h) \<Rightarrow>
                         (case int_truediv w h of
                            Inl e \<Rightarrow> g1
                          | Inr aspect \<Rightarrow>
                              (case py_int_div width aspect of
                                 Inl e \<Rightarrow> g1
                               | Inr new_h \<Rightarrow>
                                   (let filt = (if priority > 5 then LANCZOS else BILINEAR)
                                    in if resize_raises env (w, h) (width, new_h) then g1
                                       else g1\<lparr>result_queue := result_queue g1 @
                                              [((p, width), make_thumb (width, new_h) filt, p)]\<rparr>)))))))"

subsection \<open>Masonry layout\<close>

text \<open>\<open>xs.index(x)\<close> for an \<open>x\<close> that occurs in \<open>xs\<close>.\<close>

definition first_index :: "'a list \<Rightarrow> 'a \<Rightarrow> nat" where
  "first_index xs x = length (takeWhile (\<lambda>y. y \<noteq> x) xs)"

text \<open>The block \<open># Determine columns\<close> of \<open>calculate_layout\<close>, with its fallback.\<close>

definition layout_cols :: "gallery \<Rightarrow> int" where
  "layout_cols g =
     (let cols =
        (if view_mode g = ''selected'' then
           (let count = int (length (filtered_images g))
            in if count = 2 then 2
               else if count = 3 then 3
               else (if num_columns g > 0 then num_columns g else 4))
         else (if num_columns g > 0 then num_columns g else 4))
      in if cols = 0 then 1 else cols)"

text \<open>
  The body of the loop over \<open>filtered_images\<close>, and the loop.  \<open>col_heights\<close> is never empty
  (there is at least one column), so \<open>min\<close> is defined; an exception of \<open>int(col_w / aspect)\<close>
  is caught by nothing in \<open>calculate_layout\<close>.
\<close>

definition place_image :: "pil \<Rightarrow> int \<Rightarrow> image \<Rightarrow> int list \<times> gallery \<Rightarrow> py_error + int list \<times> gallery" where
  "place_image env col_w img s =
     (case s of (col_heights, g) \<Rightarrow>
        (let min_col = first_index col_heights (Min (set col_heights))
         in case get_aspect_ratio_fast env g (path img) of (aspect, g1) \<Rightarrow>
              (case py_int_div col_w aspect of
                 Inl e \<Rightarrow> Inl e
               | Inr img_h \<Rightarrow>
                   (let x = gap g + int min_col * (col_w + gap g);
                        y = col_heights ! min_col
                    in Inr (col_heights[min_col := y + img_h + gap g],
                            g1\<lparr>image_positions :=
                                 AList.update (path img) (x, y, col_w, img_h) (image_positions g1)\<rparr>)))))"

fun layout_loop :: "pil \<Rightarrow> int \<Rightarrow> image list \<Rightarrow> int list \<times> gallery \<Rightarrow> py_error + int list \<times> gallery" where
  "layout_loop env col_w [] s = Inr s"
| "layout_loop env col_w (img # imgs) s =
     (case place_image env col_w img s of
        Inl e \<Rightarrow> Inl e
      | Inr s1 \<Rightarrow> layout_loop env col_w imgs s1)"

definition column_width :: "tk_canvas \<Rightarrow> gallery \<Rightarrow> int" where
  "column_width cv g = max 50 ((winfo_width cv - gap g * (layout_cols g + 1)) div layout_cols g)"

definition initial_heights :: "gallery \<Rightarrow> int list" where
  "initial_heights g = replicate (nat (layout_cols g)) (gap g)"

text \<open>
  With a canvas that has no width yet the method only schedules itself again and leaves the
  state as it is.
\<close>

definition calculate_layout :: "tk_canvas \<Rightarrow> pil \<Rightarrow> gallery \<Rightarrow> py_error + gallery" where
  "calculate_layout cv env g =
     (let canvas_width = winfo_width cv
      in if canvas_width \<le> 1 then Inr g
         else case layout_loop env (column_width cv g) (filtered_images g)
                     (initial_heights g, g\<lparr>image_positions := []\<rparr>) of
                Inl e \<Rightarrow> Inl e
              | Inr (col_heights, g1) \<Rightarrow>
                  Inr (g1\<lparr>scrollregion :=
                         Some (0, 0, canvas_width,
                               if col_heights \<noteq> [] then Max (set col_heights) + gap g else 0)\<rparr>))"

subsection \<open>Viewport culling and incremental rendering\<close>

text \<open>
  The canvas items one render pass creates, by the coordinates handed to Tk: the selection
  outline, the thumbnail and the placeholder rectangle.
\<close>

datatype draw =
    Outline int int int int
  | Thumbnail int int thumb
  | Placeholder int int int int

text \<open>\<open>thumb_queue\<close> is a \<open>Queue(maxsize=100)\<close>; \<open>put_nowait\<close> on a full queue raises
  \<open>queue.Full\<close>, which \<open>queue_thumbnail\<close> swallows.\<close>

definition queue_thumbnail :: "gallery \<Rightarrow> task \<Rightarrow> gallery" where
  "queue_thumbnail g t =
     (if length (thumb_queue g) \<ge> 100 then g else g\<lparr>thumb_queue := thumb_queue g @ [t]\<rparr>)"

definition get_thumbnail :: "gallery \<Rightarrow> string \<Rightarrow> int \<Rightarrow> thumb option \<times> gallery" where
  "get_thumbnail g p width =
     (case get (thumb_cache g) (p, width) of (hit, tc) \<Rightarrow> (hit, g\<lparr>thumb_cache := tc\<rparr>))"

text \<open>
  The loop \<open># Render visible items\<close> over \<open>image_positions.items()\<close>, given the two bounds
  computed before it.  Creating the \<open>PhotoImage\<close> is taken to succeed.
\<close>

fun render_items :: "rat \<Rightarrow> rat \<Rightarrow> (string \<times> position) list \<Rightarrow> gallery \<times> draw list \<Rightarrow> gallery \<times> draw list" where
  "render_items visible_top visible_bottom [] s = s"
| "render_items visible_top visible_bottom ((p, (x, y, w, h)) # items) (g, canvas) =
     (if of_int (y + h) < visible_top \<or> of_int y > visible_bottom
      then render_items visible_top visible_bottom items (g, canvas)
      else (case get_thumbnail g p w of
              (Some t, g1) \<Rightarrow>
                (let img_data = find (\<lambda>img. path img = p) (filtered_images g1);
                     outline = (case img_data of
                                  Some d \<Rightarrow> if selected d then [Outline (x - 2) (y - 2) (x + w + 2) (y + h + 2)] else []
                                | None \<Rightarrow> [])
                 in render_items visible_top visible_bottom items (g1, canvas @ outline @ [Thumbnail x y t]))
            | (None, g1) \<Rightarrow>
                (let priority = (if visible_top + 300 \<le> of_int y \<and> of_int y \<le> visible_bottom - 300
                                 then 10 else 5)
                 in render_items visible_top visible_bottom items
                      (queue_thumbnail g1 (p, w, priority), canvas @ [Placeholder x y (x + w) (y + h)]))))"

text \<open>
  \<open>total_h\<close> is read back from the canvas's scroll region; without one it is the canvas
  height.  The bottom bound is computed from the unshifted top, which is lowered afterwards.
\<close>

definition update_visible_thumbs :: "tk_canvas \<Rightarrow> gallery \<Rightarrow> gallery \<times> draw list" where
  "update_visible_thumbs cv g =
     (let canvas_h = winfo_height cv;
          total_h = (case scrollregion g of None \<Rightarrow> canvas_h | Some (x0, y0, x1, y1) \<Rightarrow> y1);
          st_fraction = yview_top cv;
          visible_top0 = st_fraction * of_int total_h;
          visible_bottom = visible_top0 + of_int canvas_h + 600;
          visible_top = visible_top0 - 300
      in render_items visible_top visible_bottom (image_positions g) (g, []))"

text \<open>
  The window as the specification words it, for an overscan \<open>o\<close>:
  \<open>visible_top = scroll_fraction \<times> total_height - o\<close> and
  \<open>visible_bottom = visible_top + viewport_height + 2 \<times> o\<close>; and an entry's span lying
  entirely outside a window.
\<close>

definition spec_visible_top :: "rat \<Rightarrow> int \<Rightarrow> rat \<Rightarrow> rat" where
  "spec_visible_top scroll_fraction total_height overscan = scroll_fraction * of_int total_height - overscan"

definition spec_visible_bottom :: "rat \<Rightarrow> int \<Rightarrow> int \<Rightarrow> rat \<Rightarrow> rat" where
  "spec_visible_bottom scroll_fraction total_height viewport_height overscan =
     spec_visible_top scroll_fraction total_height overscan + of_int viewport_height + 2 * overscan"

definition entirely_outside :: "position \<Rightarrow> rat \<Rightarrow> rat \<Rightarrow> bool" where
  "entirely_outside pos lo hi =
     (case pos of (x, y, w, h) \<Rightarrow> of_int (y + h) < lo \<or> hi < of_int y)"

subsection \<open>Zoom and navigation in the single-image view\<close>

text \<open>
  The zoom requests write the zoom level and the pan offsets; the redraw they schedule
  (\<open>debounced_display\<close>) reads these fields and writes no field of the model.  The zoom
  level is a float in the source; every value reachable from \<open>1.0\<close> is a multiple of
  \<open>0.25\<close> and is exact in binary floating point.
\<close>

definition zoom_in_fn :: "gallery \<Rightarrow> gallery" where
  "zoom_in_fn g = g\<lparr>zoom_level := min 5 (zoom_level g + 1 / 4)\<rparr>"

definition zoom_out_fn :: "gallery \<Rightarrow> gallery" where
  "zoom_out_fn g =
     (let g1 = g\<lparr>zoom_level := max (1 / 4) (zoom_level g - 1 / 4)\<rparr>
      in if zoom_level g1 \<le> 1 then g1\<lparr>pan_x := 0, pan_y := 0\<rparr> else g1)"

datatype zoom_op = Zoom_in | Zoom_out

fun zoom_step :: "gallery \<Rightarrow> zoom_op \<Rightarrow> gallery" where
  "zoom_step g Zoom_in = zoom_in_fn g"
| "zoom_step g Zoom_out = zoom_out_fn g"

text \<open>
  Of \<open>display_current_image\<close> the model keeps the write to the canvas's scroll region; the
  image cache, the canvas items and \<open>last_size\<close> are no fields here.  A negative index
  counts from the end of the list; below \<open>-len\<close> the subscript raises \<open>IndexError\<close> into Tk's
  callback wrapper before the scroll region is written, and what was written before stays.
\<close>

definition display_current_image :: "gallery \<Rightarrow> gallery" where
  "display_current_image g =
     (if filtered_images g = [] \<or> current_index g \<ge> int (length (filtered_images g)) then g
      else if current_index g < - int (length (filtered_images g)) then g
      else g\<lparr>scrollregion := Some (0, 0, 0, 0)\<rparr>)"

definition prev_img :: "gallery \<Rightarrow> gallery" where
  "prev_img g =
     (if filtered_images g \<noteq> [] \<and> current_index g > 0
      then display_current_image
             (g\<lparr>current_index := current_index g - 1, pan_x := 0, pan_y := 0, zoom_level := 1\<rparr>)
      else g)"

definition next_img :: "gallery \<Rightarrow> gallery" where
  "next_img g =
     (if filtered_images g \<noteq> [] \<and> current_index g < int (length (filtered_images g)) - 1
      then display_current_image
             (g\<lparr>current_index := current_index g + 1, pan_x := 0, pan_y := 0, zoom_level := 1\<rparr>)
      else g)"

text \<open>The gallery as \<open>__init__\<close> leaves it.\<close>

definition init_gallery :: gallery where
  "init_gallery =
     \<lparr>filtered_images = [], current_index = 0, zoom_level = 1, pan_x = 0, pan_y = 0,
      thumb_cache = new_cache 400, aspect_cache = Map.empty, gap = 4, num_columns = 4,
      view_mode = ''all'', image_positions = [], scrollregion = None, thumb_queue = [],
      result_queue = [], aspect_decodes = []\<rparr>"

text \<open>Sequences of zoom and navigation requests, and the ranges they are to keep.\<close>

definition zoom_run :: "gallery \<Rightarrow> zoom_op list \<Rightarrow> gallery" where
  "zoom_run g ops = foldl zoom_step g ops"

definition zoom_in_range :: "gallery \<Rightarrow> bool" where
  "zoom_in_range g \<longleftrightarrow> 1 / 4 \<le> zoom_level g \<and> zoom_level g \<le> 5"

datatype nav_op = Next_img | Prev_img

fun nav_step :: "gallery \<Rightarrow> nav_op \<Rightarrow> gallery" where
  "nav_step g Next_img = next_img g"
| "nav_step g Prev_img = prev_img g"

definition nav_run :: "gallery \<Rightarrow> nav_op list \<Rightarrow> gallery" where
  "nav_run g ops = foldl nav_step g ops"

definition index_ok :: "gallery \<Rightarrow> bool" where
  "index_ok g \<longleftrightarrow> 0 \<le> current_index g \<and> current_index g < int (length (filtered_images g))"

text \<open>A gallery in the single-image view: two images, the first one current, zoomed and panned.\<close>

definition nav_example :: gallery where
  "nav_example = init_gallery\<lparr>filtered_images :=
     [\<lparr>path = ''a.png'', name = ''a.png'', selected = False\<rparr>,
      \<lparr>path = ''b.png'', name = ''b.png'', selected = False\<rparr>],
     zoom_level := 2, pan_x := 7, pan_y := 9\<rparr>"

text \<open>A decode that yields no ratio: \<open>Image.open\<close> raises, or the division does.\<close>

definition decode_fails :: "pil \<Rightarrow> string \<Rightarrow> bool" where
  "decode_fails env p \<longleftrightarrow>
     (case image_open env p of None \<Rightarrow> True | Some (w, h) \<Rightarrow> isl (int_truediv w h))"

text \<open>Example collaborators: one decodable file, and a two-image selection.\<close>

definition example_pil :: pil where
  "example_pil = \<lparr>image_open = (\<lambda>p. if p = ''a.png'' then Some (400, 200) else None),
                  resize_raises = (\<lambda>src dst. fst dst < 1 \<or> snd dst < 1)\<rparr>"

definition two_selected :: gallery where
  "two_selected = init_gallery\<lparr>view_mode := ''selected'', num_columns := 6, filtered_images :=
     [\<lparr>path = ''a.png'', name = ''a.png'', selected = True\<rparr>,
      \<lparr>path = ''b.png'', name = ''b.png'', selected = True\<rparr>]\<rparr>"

text \<open>
  Files whose ratio is no binary fraction: photographs of 90 by 70 pixels, and a banner of
  250 by 110 pixels.
\<close>

definition photo_pil :: pil where
  "photo_pil = \<lparr>image_open = (\<lambda>p. if p = ''banner.png'' then Some (250, 110) else Some (90, 70)),
                resize_raises = (\<lambda>src dst. fst dst < 1 \<or> snd dst < 1)\<rparr>"

text \<open>
  A folder of four tall strips (100 by 400 pixels) shown in three columns on an 800 by 600
  canvas scrolled to the top, and the same gallery once laid out.
\<close>

definition mk_image :: "string \<Rightarrow> image" where
  "mk_image p = \<lparr>path = p, name = p, selected = False\<rparr>"

definition strips_pil :: pil where
  "strips_pil = \<lparr>image_open = (\<lambda>p. Some (100, 400)),
                 resize_raises = (\<lambda>src dst. fst dst < 1 \<or> snd dst < 1)\<rparr>"

definition strips :: gallery where
  "strips = init_gallery\<lparr>num_columns := 3,
     filtered_images := map mk_image [''a.png'', ''b.png'', ''c.png'', ''d.png'']\<rparr>"

definition window :: tk_canvas where
  "window = \<lparr>winfo_width = 800, winfo_height = 600, yview_top = 0\<rparr>"

definition strips_laid_out :: gallery where
  "strips_laid_out = strips\<lparr>
     aspect_cache := [''a.png'' \<mapsto> 1 / 4, ''b.png'' \<mapsto> 1 / 4, ''c.png'' \<mapsto> 1 / 4, ''d.png'' \<mapsto> 1 / 4],
     aspect_decodes := [''a.png'', ''b.png'', ''c.png'', ''d.png''],
     image_positions := [(''a.png'', (4, 4, 261, 1044)), (''b.png'', (269, 4, 261, 1044)),
                         (''c.png'', (534, 4, 261, 1044)), (''d.png'', (4, 1052, 261, 1044))],
     scrollregion := Some (0, 0, 800, 2104)\<rparr>"

text \<open>
  The ratio an image is known by when a layout starts: the memoized ratio; for a path that
  is not memoized the float \<open>width / height\<close> of the decoded file; the default 1.0 when
  that cannot be had.
\<close>

definition known_ratio :: "pil \<Rightarrow> gallery \<Rightarrow> string \<Rightarrow> rat" where
  "known_ratio env g p =
     (case aspect_cache g p of
        Some r \<Rightarrow> r
      | None \<Rightarrow>
          (case image_open env p of
             None \<Rightarrow> 1
           | Some (w, h) \<Rightarrow> (case int_truediv w h of Inl e \<Rightarrow> 1 | Inr r \<Rightarrow> r)))"

text \<open>
  A canvas of width \<open>W\<close> divided into \<open>k\<close> columns with gap \<open>gp\<close>: the width of a column,
  and an entry of the position map that has this width and the x of one of the \<open>k\<close>
  columns.
\<close>

definition spec_column_width :: "int \<Rightarrow> int \<Rightarrow> int \<Rightarrow> int" where
  "spec_column_width W gp k = max 50 ((W - gp * (k + 1)) div k)"

definition in_column_grid :: "int \<Rightarrow> int \<Rightarrow> int \<Rightarrow> string \<times> position \<Rightarrow> bool" where
  "in_column_grid W gp k entry =
     (case entry of (p, x, y, w, h) \<Rightarrow>
        w = spec_column_width W gp k \<and>
        x \<in> set (map (\<lambda>c. gp + int c * (spec_column_width W gp k + gp)) [0..<nat k]))"

text \<open>One photograph in three columns.\<close>

definition photos :: gallery where
  "photos = init_gallery\<lparr>num_columns := 3, filtered_images := map mk_image [''p.png'']\<rparr>"

text \<open>
  Vocabulary for the layout properties.  \<open>aspect_of\<close> is the resolver's answer for a path;
  \<open>heights_after n\<close> are the column heights once the first \<open>n\<close> images are placed, read off
  the loop itself, and \<open>column_of n\<close> is the column the loop then picks for image \<open>n\<close>.
  Two galleries have the \<open>same_resolver\<close> when they answer alike and share the gap.
\<close>

definition aspect_of :: "pil \<Rightarrow> gallery \<Rightarrow> string \<Rightarrow> rat" where
  "aspect_of env g p = fst (get_aspect_ratio_fast env g p)"

definition heights_after :: "tk_canvas \<Rightarrow> pil \<Rightarrow> gallery \<Rightarrow> nat \<Rightarrow> int list" where
  "heights_after cv env g n =
     (case layout_loop env (column_width cv g) (take n (filtered_images g))
             (initial_heights g, g\<lparr>image_positions := []\<rparr>) of
        Inl e \<Rightarrow> []
      | Inr (col_heights, g1) \<Rightarrow> col_heights)"

definition column_of :: "tk_canvas \<Rightarrow> pil \<Rightarrow> gallery \<Rightarrow> nat \<Rightarrow> nat" where
  "column_of cv env g n =
     first_index (heights_after cv env g n) (Min (set (heights_after cv env g n)))"

definition same_resolver :: "pil \<Rightarrow> gallery \<Rightarrow> gallery \<Rightarrow> bool" where
  "same_resolver env g g' \<longleftrightarrow> (\<forall>p. aspect_of env g' p = aspect_of env g p) \<and> gap g' = gap g"

text \<open>Twelve square images in the initial gallery (four columns, gap 4).\<close>

definition squares_pil :: pil where
  "squares_pil = \<lparr>image_open = (\<lambda>p. Some (300, 300)),
                  resize_raises = (\<lambda>src dst. fst dst < 1 \<or> snd dst < 1)\<rparr>"

definition squares :: gallery where
  "squares = init_gallery\<lparr>filtered_images := map mk_image
     [''01.png'', ''02.png'', ''03.png'', ''04.png'', ''05.png'', ''06.png'',
      ''07.png'', ''08.png'', ''09.png'', ''10.png'', ''11.png'', ''12.png'']\<rparr>"

text \<open>
  What a layout run produces for its caller, the position map and the scroll region, and
  the part of the state the loop depends on.
\<close>

definition layout_output :: "py_error + gallery \<Rightarrow> py_error + (string \<times> position) list \<times> (int \<times> int \<times> int \<times> int) option" where
  "layout_output r = (case r of Inl e \<Rightarrow> Inl e | Inr g \<Rightarrow> Inr (image_positions g, scrollregion g))"

definition same_layout_state :: "gallery \<Rightarrow> gallery \<Rightarrow> bool" where
  "same_layout_state ga gb \<longleftrightarrow>
     aspect_cache ga = aspect_cache gb \<and> gap ga = gap gb \<and> image_positions ga = image_positions gb"

text \<open>
  Further examples: the laid-out strips seen from another view state and a shorter,
  scrolled canvas; selections of three and five images; a gallery whose thumbnail cache
  holds one entry.
\<close>

definition strips_other_view :: gallery where
  "strips_other_view = strips_laid_out\<lparr>zoom_level := 2, pan_x := 5, current_index := 3,
     thumb_queue := [(''a.png'', 261, 10)], image_positions := []\<rparr>"

definition short_window :: tk_canvas where
  "short_window = \<lparr>winfo_width = 800, winfo_height = 300, yview_top = 1 / 2\<rparr>"

definition three_selected :: gallery where
  "three_selected = two_selected\<lparr>filtered_images := map mk_image [''a.png'', ''b.png'', ''c.png'']\<rparr>"

definition five_selected :: gallery where
  "five_selected = two_selected\<lparr>filtered_images :=
     map mk_image [''a.png'', ''b.png'', ''c.png'', ''d.png'', ''e.png'']\<rparr>"

definition cached_gallery :: gallery where
  "cached_gallery = init_gallery\<lparr>thumb_cache :=
     put (new_cache 400) (''a.png'', 200) (make_thumb (200, 100) LANCZOS)\<rparr>"

section \<open>Properties\<close>

subsection \<open>Float arithmetic\<close>

lemma pow2_pos: "0 < pow2 k"
  by (simp add: pow2_def)

lemma round_half_even_nonneg: "0 \<le> y \<Longrightarrow> 0 \<le> round_half_even y"
  by (auto simp: round_half_even_def Let_def)

lemma round_half_even_of_int: "round_half_even (of_int m) = m"
  by (simp add: round_half_even_def Let_def)

lemma round_double_nonneg: "0 \<le> x \<Longrightarrow> round_double x = Some r \<Longrightarrow> 0 \<le> r"
proof -
  assume x: "0 \<le> x" and r: "round_double x = Some r"
  show ?thesis
  proof (cases "x = 0")
    case True
    with r show ?thesis by (simp add: round_double_def)
  next
    case False
    define k where "k = max (ilog2 \<bar>x\<bar>) (- 1022) - 52"
    have "0 \<le> \<bar>x\<bar> / pow2 k" using pow2_pos[of k] by simp
    then have "0 \<le> round_half_even (\<bar>x\<bar> / pow2 k)" by (rule round_half_even_nonneg)
    then have "0 \<le> (of_int (round_half_even (\<bar>x\<bar> / pow2 k)) :: rat) * pow2 k"
      using pow2_pos[of k] by simp
    with r False x show ?thesis
      by (auto simp: round_double_def Let_def k_def split: if_splits)
  qed
qed

lemma bit_length_0 [simp]: "bit_length 0 = 0"
  by (simp add: bit_length.simps[of 0])

lemma bit_length_le: "n < 2 ^ k \<Longrightarrow> bit_length n \<le> k"
proof (induction k arbitrary: n)
  case 0
  then show ?case by simp
next
  case (Suc k)
  show ?case
  proof (cases "n = 0")
    case True
    then show ?thesis by simp
  next
    case False
    from Suc.prems have "n div 2 < 2 ^ k" by simp
    from Suc.IH[OF this] False show ?thesis by (simp add: bit_length.simps[of n])
  qed
qed

lemma bit_length_pos: "0 < n \<Longrightarrow> 0 < bit_length n"
  by (simp add: bit_length.simps[of n])

lemma round_double_of_int:
  assumes "0 < n" and "n < 2 ^ 53"
  shows "round_double (of_int n) = Some (of_int n)"
proof -
  define b where "b = bit_length (nat n)"
  have "nat n < 2 ^ 53" using assms by (simp add: nat_less_iff)
  then have b53: "b \<le> 53" unfolding b_def by (rule bit_length_le)
  have b1: "0 < b" unfolding b_def using assms(1) by (intro bit_length_pos) simp
  have a: "\<bar>of_int n :: rat\<bar> = of_int n" using assms(1) by simp
  have l: "ilog2 (of_int n) = int b - 1"
    using assms(1) by (simp add: ilog2_def b_def)
  have k: "max (ilog2 (of_int n)) (- 1022) - 52 = - int (53 - b)"
    using b53 b1 by (simp add: l)
  have p: "pow2 (- int (53 - b)) = 1 / 2 ^ (53 - b)"
    by (cases "53 - b = 0") (simp_all add: pow2_def del: of_nat_diff)
  have y: "(of_int n :: rat) / (1 / 2 ^ (53 - b)) = of_int (n * 2 ^ (53 - b))"
    by simp
  have r: "(of_int (n * 2 ^ (53 - b)) :: rat) * (1 / 2 ^ (53 - b)) = of_int n"
    by simp
  have big: "\<not> pow2 1024 \<le> (of_int n :: rat)"
  proof -
    have "(of_int n :: rat) < 2 ^ 53" using assms(2) by (metis of_int_less_numeral_power_cancel_iff)
    also have "\<dots> \<le> 2 ^ 1024" by (rule power_increasing) simp_all
    finally show ?thesis by (simp add: pow2_def)
  qed
  show ?thesis
    using assms(1) big
    unfolding round_double_def Let_def a k p y round_half_even_of_int r
    by simp
qed

lemma py_int_div_one:
  assumes "0 < n" and "n < 2 ^ 53"
  shows "py_int_div n 1 = Inr n"
  using round_double_of_int[OF assms]
  by (simp add: py_int_div_def float_truediv_def py_int_def)

lemma py_int_div_nonneg:
  assumes "0 \<le> n" and "0 < x" and "py_int_div n x = Inr h"
  shows "0 \<le> h"
proof -
  from assms(3) obtain fn q where fn: "round_double (of_int n) = Some fn"
    and q: "round_double (fn / x) = Some q" and h: "h = py_int q"
    by (auto simp: py_int_div_def float_truediv_def split: option.splits if_splits sum.splits)
  have "0 \<le> fn" using round_double_nonneg[OF _ fn] assms(1) by simp
  then have "0 \<le> fn / x" using assms(2) by simp
  from round_double_nonneg[OF this q] show ?thesis by (simp add: h py_int_def)
qed

lemma pow2_powi: "pow2 k = 2 powi k"
  by (simp add: pow2_def power_int_def power_inverse[symmetric] inverse_eq_divide field_simps)

lemma bit_length_upper: "n < 2 ^ bit_length n"
proof (induction n rule: bit_length.induct)
  case (1 n)
  show ?case
  proof (cases "n = 0")
    case True
    then show ?thesis by simp
  next
    case False
    from 1[OF False] have "n div 2 < 2 ^ bit_length (n div 2)" .
    then have "n < 2 * 2 ^ bit_length (n div 2)" by linarith
    then show ?thesis using False by (simp add: bit_length.simps[of n])
  qed
qed

lemma bit_length_lower: "0 < n \<Longrightarrow> 2 ^ (bit_length n - 1) \<le> n"
proof (induction n rule: bit_length.induct)
  case (1 n)
  show ?case
  proof (cases "n div 2 = 0")
    case True
    with 1(2) have "n = 1" by (simp add: div_eq_0_iff) 
    then show ?thesis by (simp add: bit_length.simps[of 1] bit_length.simps[of "Suc 0"])
  next
    case False
    then have pos: "0 < n div 2" by simp
    from 1(1)[OF _ pos] 1(2) have "2 ^ (bit_length (n div 2) - 1) \<le> n div 2" by simp
    then have "2 * 2 ^ (bit_length (n div 2) - 1) \<le> n" by linarith
    moreover have "bit_length n - 1 = Suc (bit_length (n div 2) - 1)"
      using 1(2) bit_length_pos[OF pos] by (simp add: bit_length.simps[of n])
    ultimately show ?thesis by simp
  qed
qed

lemma ilog2_bounds:
  assumes "0 < a"
  shows "pow2 (ilog2 a) \<le> a" and "a < pow2 (ilog2 a + 1)"
proof -
  show "pow2 (ilog2 a) \<le> a"
  proof (cases "1 \<le> a")
    case True
    define n where "n = nat \<lfloor>a\<rfloor>"
    have n: "0 < n" using True by (simp add: n_def)
    have e: "ilog2 a = int (bit_length n - 1)"
      using True bit_length_pos[OF n] by (simp add: ilog2_def n_def)
    have "(2::rat) ^ (bit_length n - 1) = of_nat (2 ^ (bit_length n - 1))" by simp
    also have "\<dots> \<le> of_nat n" using bit_length_lower[OF n] by (simp only: of_nat_le_iff)
    also have "\<dots> = of_int \<lfloor>a\<rfloor>" using True by (simp add: n_def)
    also have "\<dots> \<le> a" by (rule of_int_floor_le)
    finally show ?thesis by (simp add: e pow2_powi)
  next
    case False
    define m where "m = nat (\<lceil>1 / a\<rceil> - 1)"
    have e: "ilog2 a = - int (bit_length m)" using False by (simp add: ilog2_def m_def)
    have "1 < 1 / a" using False assms by simp
    then have c: "1 < \<lceil>1 / a\<rceil>" by (simp add: less_ceiling_iff)
    have mi: "int m = \<lceil>1 / a\<rceil> - 1" unfolding m_def by (rule nat_0_le) (use c in linarith)
    have "1 / a \<le> of_int \<lceil>1 / a\<rceil>" by (rule le_of_int_ceiling)
    also have "\<dots> = of_int (int (m + 1))" using mi by simp
    also have "\<dots> = of_nat (m + 1)" by (simp only: of_int_of_nat_eq)
    also have "\<dots> \<le> of_nat (2 ^ bit_length m)"
      using bit_length_upper[of m] by (simp only: of_nat_le_iff)
    finally have "1 / a \<le> 2 ^ bit_length m" by simp
    then have "1 / 2 ^ bit_length m \<le> a" using assms by (simp add: field_simps)
    then show ?thesis by (simp add: e pow2_powi power_int_minus_divide)
  qed
  show "a < pow2 (ilog2 a + 1)"
  proof (cases "1 \<le> a")
    case True
    define n where "n = nat \<lfloor>a\<rfloor>"
    have n: "0 < n" using True by (simp add: n_def)
    have e: "ilog2 a + 1 = int (bit_length n)"
      using True bit_length_pos[OF n] by (simp add: ilog2_def n_def)
    have "\<lfloor>a\<rfloor> < 2 ^ bit_length n"
      using bit_length_upper[of n] True by (simp add: n_def nat_less_iff)
    then have "a < of_int (2 ^ bit_length n)" by (simp only: floor_less_iff)
    then show ?thesis by (simp add: e pow2_powi)
  next
    case False
    define m where "m = nat (\<lceil>1 / a\<rceil> - 1)"
    have e: "ilog2 a + 1 = - int (bit_length m - 1)"
    proof -
      have "1 < 1 / a" using False assms by simp
      then have "1 < \<lceil>1 / a\<rceil>" by (simp add: less_ceiling_iff)
      then have "0 < m" by (simp add: m_def)
      from bit_length_pos[OF this] show ?thesis using False by (simp add: ilog2_def m_def)
    qed
    have "1 < 1 / a" using False assms by simp
    then have c: "1 < \<lceil>1 / a\<rceil>" by (simp add: less_ceiling_iff)
    then have m: "0 < m" by (simp add: m_def)
    have mi: "int m = \<lceil>1 / a\<rceil> - 1" unfolding m_def by (rule nat_0_le) (use c in linarith)
    have "(2::rat) ^ (bit_length m - 1) = of_nat (2 ^ (bit_length m - 1))" by simp
    also have "\<dots> \<le> of_nat m" using bit_length_lower[OF m] by (simp only: of_nat_le_iff)
    also have "\<dots> = of_int (int m)" by (simp only: of_int_of_nat_eq)
    also have "\<dots> = of_int (\<lceil>1 / a\<rceil> - 1)" by (simp only: mi)
    also have "\<dots> < 1 / a" using ceiling_correct[of "1 / a"] by simp
    finally have "2 ^ (bit_length m - 1) < 1 / a" .
    then have "a < 1 / 2 ^ (bit_length m - 1)" using assms by (simp add: field_simps)
    then show ?thesis by (simp only: e pow2_powi power_int_minus_divide power_int_of_nat)
  qed
qed

lemma round_half_even_le: "y \<le> of_int m \<Longrightarrow> round_half_even y \<le> m"
proof -
  assume y: "y \<le> of_int m"
  have f: "\<lfloor>y\<rfloor> \<le> m" using y by (simp add: floor_le_iff) 
  show ?thesis
  proof (cases "\<lfloor>y\<rfloor> = m")
    case True
    then have "y - of_int \<lfloor>y\<rfloor> \<le> 0" using y by simp
    then show ?thesis using True by (simp add: round_half_even_def Let_def)
  next
    case False
    with f have "\<lfloor>y\<rfloor> + 1 \<le> m" by simp
    then show ?thesis using f by (simp add: round_half_even_def Let_def)
  qed
qed

lemma round_double_total:
  assumes "0 \<le> x" and "x < pow2 1023"
  shows "\<exists>r. round_double x = Some r"
proof (cases "x = 0")
  case True
  then show ?thesis by (simp add: round_double_def)
next
  case False
  with assms(1) have pos: "0 < x" by simp
  define e where "e = max (ilog2 x) (- 1022)"
  have up: "x < pow2 (e + 1)"
  proof -
    have "x < pow2 (ilog2 x + 1)" using pos by (rule ilog2_bounds(2))
    also have "\<dots> \<le> pow2 (e + 1)"
      unfolding pow2_powi by (rule power_int_increasing) (simp_all add: e_def)
    finally show ?thesis .
  qed
  have e1022: "e \<le> 1022"
  proof -
    have "pow2 (ilog2 x) < pow2 1023" using ilog2_bounds(1)[OF pos] assms(2) by simp
    then have "ilog2 x < 1023" unfolding pow2_powi by (rule power_int_le_imp_less_exp[rotated]) simp_all
    then show ?thesis by (simp add: e_def)
  qed
  have split: "pow2 (e + 1) = of_int (2 ^ 53) * pow2 (e - 52)"
  proof -
    have "pow2 (e + 1) = 2 powi (53 + (e - 52))"
      unfolding pow2_powi by (rule arg_cong[where f = "\<lambda>k. 2 powi k"]) simp
    also have "\<dots> = 2 powi 53 * 2 powi (e - 52)" by (rule power_int_add) simp
    finally show ?thesis by (simp add: pow2_powi)
  qed
  have "x < of_int (2 ^ 53) * pow2 (e - 52)" using up by (simp only: split)
  then have "x / pow2 (e - 52) \<le> of_int (2 ^ 53)"
    using pow2_pos[of "e - 52"] by (simp add: pos_divide_le_eq)
  then have "round_half_even (x / pow2 (e - 52)) \<le> 2 ^ 53" by (rule round_half_even_le)
  then have "(of_int (round_half_even (x / pow2 (e - 52))) :: rat) \<le> of_int (2 ^ 53)"
    by (simp only: of_int_le_iff)
  then have "of_int (round_half_even (x / pow2 (e - 52))) * pow2 (e - 52) \<le> pow2 (e + 1)"
    using pow2_pos[of "e - 52"] by (simp add: split)
  also have "\<dots> < pow2 1024"
    unfolding pow2_powi by (rule power_int_strict_increasing) (use e1022 in simp_all)
  finally have "\<not> pow2 1024 \<le> of_int (round_half_even (\<bar>x\<bar> / pow2 (e - 52))) * pow2 (e - 52)"
    using pos by simp
  moreover have "\<bar>x\<bar> = x" using pos by simp
  ultimately show ?thesis using False by (simp add: round_double_def Let_def e_def)
qed

lemma int_truediv_total:
  assumes "0 \<le> w" and "0 < h" and "w < 2 ^ 1023"
  shows "\<exists>r. int_truediv w h = Inr r"
proof -
  have "1 \<le> (of_int h :: rat)" using assms(2) by simp
  then have "(of_int w :: rat) / of_int h \<le> of_int w / 1"
    by (intro divide_left_mono) (use assms(1,2) in simp_all)
  also have "\<dots> = of_int w" by simp
  also have "\<dots> < of_int (2 ^ 1023)" using assms(3) by (simp only: of_int_less_iff)
  finally have "(of_int w :: rat) / of_int h < pow2 1023" by (simp add: pow2_def)
  moreover have "0 \<le> (of_int w :: rat) / of_int h" using assms(1,2) by simp
  ultimately obtain r where "round_double (of_int w / of_int h) = Some r"
    using round_double_total by blast
  then show ?thesis using assms(2) by (simp add: int_truediv_def)
qed

lemma py_int_div_total:
  assumes "0 < n" and "n < 2 ^ 53" and "0 < x" and "of_int n / x < pow2 1023"
  shows "\<exists>q. round_double (of_int n / x) = Some q \<and> 0 \<le> q \<and> py_int_div n x = Inr \<lfloor>q\<rfloor>"
proof -
  have fn: "round_double (of_int n) = Some (of_int n)" using assms(1,2) by (rule round_double_of_int)
  have "0 \<le> (of_int n :: rat) / x" using assms(1,3) by simp
  from round_double_total[OF this assms(4)] obtain q where q: "round_double (of_int n / x) = Some q"
    by blast
  have "0 \<le> q" using round_double_nonneg[OF \<open>0 \<le> of_int n / x\<close> q] .
  then show ?thesis using fn q assms(3) by (simp add: float_truediv_def py_int_div_def py_int_def)
qed

text \<open>The quotients of the examples, computed.\<close>

lemma int_truediv_examples:
  "int_truediv 100 400 = Inr (1 / 4)"
  "int_truediv 400 200 = Inr 2"
  "int_truediv 300 300 = Inr 1"
  "int_truediv 250 110 = Inr (5117726849284655 / 2251799813685248)"
  "int_truediv 90 70 = Inr (5790342378047781 / 4503599627370496)"
  by code_simp+

lemma py_int_div_examples:
  "py_int_div 261 (1 / 4) = Inr 1044"
  "py_int_div 261 2 = Inr 130"
  "py_int_div 261 1 = Inr 261"
  "py_int_div 200 2 = Inr 100"
  "py_int_div 200 (5117726849284655 / 2251799813685248) = Inr 87"
  "py_int_div 261 (5790342378047781 / 4503599627370496) = Inr 202"
  "py_int_div 196 1 = Inr 196"
  by code_simp+

subsection \<open>FastImageCache\<close>

lemma put_keys:
  "keys (put c k v) =
     (let ks = (if k \<in> set (keys c) then keys c else keys c @ [k])
      in if int (length ks) > max_size c then tl ks else ks)"
proof -
  have len: "length (AList.update k v (cache c)) = length (map fst (AList.update k v (cache c)))"
    by simp
  show ?thesis
    unfolding keys_def put_def Let_def len AList.update_keys
    by (auto simp: map_tl AList.update_keys)
qed

lemma put_max_size [simp]: "max_size (put c k v) = max_size c"
  by (simp add: put_def Let_def)

lemma get_max_size [simp]: "max_size (snd (get c k)) = max_size c"
  by (simp add: get_def split: option.splits)

lemma get_keys:
  "keys (snd (get c k)) = (if k \<in> set (keys c) then removeAll k (keys c) @ [k] else keys c)"
  by (auto simp: get_def keys_def AList.delete_keys map_of_eq_None_iff split: option.splits
      dest!: map_of_SomeD intro: rev_image_eqI)

lemma length_cache_keys: "length (cache c) = length (keys c)"
  by (simp add: keys_def)

lemma put_inv: "cache_inv c \<Longrightarrow> cache_inv (put c k v)"
  unfolding cache_inv_def put_keys Let_def
  by (auto simp: distinct_tl)

lemma get_inv: "cache_inv c \<Longrightarrow> cache_inv (snd (get c k))"
  unfolding cache_inv_def get_keys
proof (cases "k \<in> set (keys c)")
  case True
  assume "distinct (keys c) \<and> int (length (keys c)) \<le> max_size c"
  moreover from this True have "length (removeAll k (keys c)) = length (keys c) - 1"
    by (simp add: distinct_remove1_removeAll[symmetric] length_remove1)
  moreover from True have "length (keys c) > 0" by (cases "keys c") auto
  ultimately show "distinct (if k \<in> set (keys c) then removeAll k (keys c) @ [k] else keys c) \<and>
    int (length (if k \<in> set (keys c) then removeAll k (keys c) @ [k] else keys c)) \<le> max_size (snd (get c k))"
    using True by (simp add: distinct_removeAll)
qed simp

lemma apply_op_inv: "cache_inv c \<Longrightarrow> cache_inv (apply_op c op)"
  by (cases op) (simp_all add: put_inv get_inv)

lemma apply_op_max_size [simp]: "max_size (apply_op c op) = max_size c"
  by (cases op) simp_all

lemma run_inv: "cache_inv c \<Longrightarrow> cache_inv (run c ops)"
  unfolding run_def by (induction ops arbitrary: c) (simp_all add: apply_op_inv)

lemma run_max_size [simp]: "max_size (run c ops) = max_size c"
  unfolding run_def by (induction ops arbitrary: c) simp_all

lemma new_cache_inv: "0 \<le> m \<Longrightarrow> cache_inv (new_cache m)"
  by (simp add: cache_inv_def new_cache_def keys_def)

lemma cache_size_bounded:
  "0 \<le> m \<Longrightarrow> int (length (cache (run (new_cache m) ops))) \<le> m"
  using run_inv[OF new_cache_inv, of m ops]
  by (simp add: cache_inv_def length_cache_keys new_cache_def)

lemma run_Cons: "run c (op # ops) = run (apply_op c op) ops"
  by (simp add: run_def)

lemma run_Nil: "run c [] = c"
  by (simp add: run_def)

lemma run_fresh_puts:
  "cache_inv c \<Longrightarrow> distinct (keys c @ map fst kvs) \<Longrightarrow>
   keys (run c (puts kvs)) =
     drop (nat (int (length (keys c) + length kvs) - max_size c)) (keys c @ map fst kvs)"
proof (induction kvs arbitrary: c)
  case Nil
  then show ?case by (simp add: puts_def run_Nil cache_inv_def)
next
  case (Cons kv kvs)
  obtain k v where kv: "kv = (k, v)" by (cases kv)
  let ?c' = "put c k v"
  from Cons.prems have fresh: "k \<notin> set (keys c)" and le: "int (length (keys c)) \<le> max_size c"
    by (auto simp: kv cache_inv_def)
  have inv': "cache_inv ?c'" using Cons.prems(1) by (rule put_inv)
  have keys': "keys ?c' = (if int (length (keys c)) = max_size c then tl (keys c @ [k]) else keys c @ [k])"
    using fresh le by (auto simp: put_keys Let_def)
  have dist': "distinct (keys ?c' @ map fst kvs)"
    using Cons.prems(2) by (cases "keys c") (auto simp: keys' kv)
  have IH: "keys (run ?c' (puts kvs)) =
     drop (nat (int (length (keys ?c') + length kvs) - max_size c)) (keys ?c' @ map fst kvs)"
    using Cons.IH[OF inv' dist'] by simp
  have run: "run c (puts (kv # kvs)) = run ?c' (puts kvs)"
    by (simp add: puts_def kv run_Cons)
  show ?case
  proof (cases "int (length (keys c)) = max_size c")
    case True
    then have k1: "keys ?c' = tl (keys c @ [k])" by (simp add: keys')
    have k2: "tl (keys c @ [k]) @ map fst kvs = tl (keys c @ map fst (kv # kvs))"
      by (cases "keys c") (simp_all add: kv)
    have n1: "nat (int (length (keys ?c') + length kvs) - max_size c) = length kvs"
      using True by (simp add: k1)
    have n2: "nat (int (length (keys c) + length (kv # kvs)) - max_size c) = Suc (length kvs)"
      using True by simp
    have "keys (run c (puts (kv # kvs))) =
        drop (nat (int (length (keys ?c') + length kvs) - max_size c)) (keys ?c' @ map fst kvs)"
      by (simp only: run IH)
    also have "\<dots> = drop (length kvs) (tl (keys c @ map fst (kv # kvs)))"
      by (simp only: n1) (simp only: k1 k2)
    also have "\<dots> = drop (Suc (length kvs)) (keys c @ map fst (kv # kvs))"
      by (simp only: drop_Suc)
    also have "\<dots> = drop (nat (int (length (keys c) + length (kv # kvs)) - max_size c))
        (keys c @ map fst (kv # kvs))"
      by (simp only: n2)
    finally show ?thesis .
  next
    case False
    with le have lt: "int (length (keys c)) < max_size c" by simp
    have "keys ?c' = keys c @ [k]" using False by (simp add: keys')
    then show ?thesis unfolding run IH by (simp add: kv)
  qed
qed

lemma insert_Suc_max_distinct:
  assumes "distinct (map fst kvs)" and "length kvs = Suc m"
  shows "keys (run (new_cache (int m)) (puts kvs)) = tl (map fst kvs)"
proof -
  have "keys (run (new_cache (int m)) (puts kvs)) = drop 1 (map fst kvs)"
    using run_fresh_puts[of "new_cache (int m)" kvs] assms
    by (simp add: new_cache_inv) (simp add: new_cache_def keys_def)
  then show ?thesis by (simp add: drop_Suc)
qed

lemma put_survives:
  assumes inv: "cache_inv c" and ks: "keys c = pre @ k # post" and ne: "k' \<noteq> k"
    and slack: "1 \<le> int (length pre) + (max_size c - int (length (keys c)))"
  shows "\<exists>pre' post'. keys (put c k' v) = pre' @ k # post' \<and>
           int (length pre) + (max_size c - int (length (keys c))) - 1
             \<le> int (length pre') + (max_size c - int (length (keys (put c k' v))))"
proof (cases "k' \<in> set (keys c)")
  case True
  then have "keys (put c k' v) = keys c"
    using inv by (simp add: put_keys cache_inv_def)
  then have "keys (put c k' v) = pre @ k # post \<and>
           int (length pre) + (max_size c - int (length (keys c))) - 1
             \<le> int (length pre) + (max_size c - int (length (keys (put c k' v))))"
    using ks by simp
  then show ?thesis by blast
next
  case False
  show ?thesis
  proof (cases "int (length (keys c)) < max_size c")
    case True
    then have "keys (put c k' v) = pre @ k # (post @ [k'])"
      using False ks by (simp add: put_keys)
    then have "keys (put c k' v) = pre @ k # (post @ [k']) \<and>
           int (length pre) + (max_size c - int (length (keys c))) - 1
             \<le> int (length pre) + (max_size c - int (length (keys (put c k' v))))"
      using ks by simp
    then show ?thesis by blast
  next
    case full: False
    with inv have len: "int (length (keys c)) = max_size c" by (simp add: cache_inv_def)
    with slack have "pre \<noteq> []" by auto
    then obtain x pre' where pre: "pre = x # pre'" by (cases pre) auto
    have "keys (put c k' v) = pre' @ k # (post @ [k'])"
      using False len ks pre by (simp add: put_keys)
    then have "keys (put c k' v) = pre' @ k # (post @ [k']) \<and>
           int (length pre) + (max_size c - int (length (keys c))) - 1
             \<le> int (length pre') + (max_size c - int (length (keys (put c k' v))))"
      using pre ks len by simp
    then show ?thesis by blast
  qed
qed

lemma puts_survive:
  "cache_inv c \<Longrightarrow> keys c = pre @ k # post \<Longrightarrow> k \<notin> fst ` set kvs \<Longrightarrow>
   int (length kvs) \<le> int (length pre) + (max_size c - int (length (keys c))) \<Longrightarrow>
   k \<in> set (keys (run c (puts kvs)))"
proof (induction kvs arbitrary: c pre post)
  case Nil
  then show ?case by (simp add: puts_def run_Nil)
next
  case (Cons kv kvs)
  obtain k' v where kv: "kv = (k', v)" by (cases kv)
  from Cons.prems(3) have ne: "k' \<noteq> k" and rest: "k \<notin> fst ` set kvs"
    by (auto simp: kv)
  from Cons.prems(4) have slack: "1 \<le> int (length pre) + (max_size c - int (length (keys c)))"
    by simp
  from put_survives[OF Cons.prems(1,2) ne slack, of v]
  obtain pre' post' where ks': "keys (put c k' v) = pre' @ k # post'"
    and sl': "int (length pre) + (max_size c - int (length (keys c))) - 1
             \<le> int (length pre') + (max_size c - int (length (keys (put c k' v))))"
    by blast
  have "k \<in> set (keys (run (put c k' v) (puts kvs)))"
  proof (rule Cons.IH[OF put_inv[OF Cons.prems(1)] ks' rest])
    show "int (length kvs) \<le> int (length pre') +
        (max_size (put c k' v) - int (length (keys (put c k' v))))"
      using sl' Cons.prems(4) by simp
  qed
  then show ?case by (simp add: puts_def kv run_Cons)
qed

lemma get_hit_promotes:
  assumes "distinct (keys c)" and "k \<in> set (keys c)"
  shows "keys (snd (get c k)) = removeAll k (keys c) @ [k]"
    and "length (removeAll k (keys c)) = length (keys c) - 1"
  using assms by (simp_all add: get_keys distinct_remove1_removeAll[symmetric] length_remove1)

lemma lru_trace_run: "run (new_cache 2) lru_trace = \<lparr>cache = [(''a'', 3), (''b'', 2)], max_size = 2\<rparr>"
  by (simp add: lru_trace_def run_def new_cache_def put_def)

lemma lru_trace_log: "access_log (new_cache 2) lru_trace = [''a'', ''b'', ''a'']"
  by (simp add: lru_trace_def)

text \<open>
  C1, at the input where the code departs from it.  In a cache of size 2, after
  \<open>put a\<close>, \<open>put b\<close> and a second \<open>put a\<close>, a \<open>put c\<close> evicts \<open>a\<close> and keeps \<open>b\<close>, although
  \<open>b\<close> is the least recently accessed of the two and \<open>a\<close> is not: the overwrite left \<open>a\<close> at
  the oldest position.
\<close>

theorem put_overwrite_not_promoted:
  "evicted (run (new_cache 2) lru_trace) ''c'' 4 = Some ''a'' \<and>
   keys (put (run (new_cache 2) lru_trace) ''c'' 4) = [''b'', ''c''] \<and>
   least_recently_accessed (access_log (new_cache 2) lru_trace) (keys (run (new_cache 2) lru_trace)) ''b'' \<and>
   \<not> least_recently_accessed (access_log (new_cache 2) lru_trace) (keys (run (new_cache 2) lru_trace)) ''a''"
  unfolding lru_trace_run lru_trace_log
  by (simp add: evicted_def put_def keys_def least_recently_accessed_def age_def)

text \<open>
  C2, as the code has it.  In a full cache a \<open>get\<close> that hits \<open>k\<close> followed by fewer than
  \<open>max_size\<close> further \<open>put\<close>s, none of them on \<open>k\<close>, leaves \<open>k\<close> in the cache; followed by
  \<open>max_size\<close> or more \<open>put\<close>s of distinct keys that are not in the cache, it leaves \<open>k\<close>
  evicted.
\<close>

theorem promoted_key_survives:
  assumes "distinct (keys c)" and "int (length (cache c)) = max_size c" and "k \<in> set (keys c)"
    and "k \<notin> fst ` set kvs"
  shows "(int (length kvs) < max_size c \<longrightarrow> k \<in> set (keys (run (snd (get c k)) (puts kvs))))
    \<and> (distinct (map fst kvs) \<and> set (map fst kvs) \<inter> set (keys c) = {} \<and> max_size c \<le> int (length kvs) \<longrightarrow>
         k \<notin> set (keys (run (snd (get c k)) (puts kvs))))"
proof -
  let ?c' = "snd (get c k)"
  have inv: "cache_inv c" using assms(1,2) by (simp add: cache_inv_def length_cache_keys)
  have inv': "cache_inv ?c'" using inv by (rule get_inv)
  have ks: "keys ?c' = removeAll k (keys c) @ k # []"
    using get_hit_promotes(1)[OF assms(1,3)] by simp
  have len: "length (removeAll k (keys c)) = length (keys c) - 1"
    by (rule get_hit_promotes(2)[OF assms(1,3)])
  have pos: "0 < length (keys c)" using assms(3) by (cases "keys c") auto
  have full: "int (length (keys ?c')) = max_size c"
    using assms(2) len pos by (simp add: ks length_cache_keys)
  have stays: "k \<in> set (keys (run ?c' (puts kvs)))" if few: "int (length kvs) < max_size c"
  proof (rule puts_survive[OF inv' ks assms(4)])
    show "int (length kvs) \<le> int (length (removeAll k (keys c))) +
        (max_size ?c' - int (length (keys ?c')))"
      using assms(2) few len pos by (simp add: ks length_cache_keys)
  qed
  have leaves: "k \<notin> set (keys (run ?c' (puts kvs)))"
    if d: "distinct (map fst kvs)" and fresh: "set (map fst kvs) \<inter> set (keys c) = {}"
      and many: "max_size c \<le> int (length kvs)"
  proof -
    have dist: "distinct (keys ?c' @ map fst kvs)"
      using assms(1,4) d fresh by (auto simp: ks distinct_removeAll)
    have n: "nat (int (length (keys ?c') + length kvs) - max_size ?c') = length kvs"
      using full by simp
    have le: "length (keys ?c') \<le> length kvs" using full many by simp
    have "keys (run ?c' (puts kvs)) = drop (length kvs) (keys ?c' @ map fst kvs)"
      using run_fresh_puts[OF inv' dist] by (simp only: n)
    also have "\<dots> = drop (length kvs - length (keys ?c')) (map fst kvs)"
      using le by simp
    finally have "set (keys (run ?c' (puts kvs))) \<subseteq> set (map fst kvs)"
      by (simp only: set_drop_subset)
    then show ?thesis using assms(4) by auto
  qed
  from stays leaves show ?thesis by blast
qed

theorem promoted_key_survives_witness:
  "distinct (keys full2) \<and> int (length (cache full2)) = max_size full2 \<and> ''k'' \<in> set (keys full2) \<and>
   ''k'' \<notin> fst ` set [(''x'', 3::nat)] \<and> int (length [(''x'', 3::nat)]) < max_size full2 \<and>
   ''k'' \<in> set (keys (run (snd (get full2 ''k'')) (puts [(''x'', 3)]))) \<and>
   ''k'' \<notin> fst ` set [(''x'', 3::nat), (''y'', 4), (''z'', 5)] \<and>
   distinct (map fst [(''x'', 3::nat), (''y'', 4), (''z'', 5)]) \<and>
   set (map fst [(''x'', 3::nat), (''y'', 4), (''z'', 5)]) \<inter> set (keys full2) = {} \<and>
   max_size full2 \<le> int (length [(''x'', 3::nat), (''y'', 4), (''z'', 5)]) \<and>
   ''k'' \<notin> set (keys (run (snd (get full2 ''k'')) (puts [(''x'', 3), (''y'', 4), (''z'', 5)])))"
proof -
  have h: "distinct (keys full2)" "int (length (cache full2)) = max_size full2" "''k'' \<in> set (keys full2)"
    by (simp_all add: full2_def keys_def)
  have a: "''k'' \<notin> fst ` set [(''x'', 3::nat)]" "int (length [(''x'', 3::nat)]) < max_size full2"
    by (simp_all add: full2_def)
  have b: "''k'' \<notin> fst ` set [(''x'', 3::nat), (''y'', 4), (''z'', 5)]"
    "distinct (map fst [(''x'', 3::nat), (''y'', 4), (''z'', 5)])"
    "set (map fst [(''x'', 3::nat), (''y'', 4), (''z'', 5)]) \<inter> set (keys full2) = {}"
    "max_size full2 \<le> int (length [(''x'', 3::nat), (''y'', 4), (''z'', 5)])"
    by (simp_all add: full2_def keys_def)
  have "''k'' \<in> set (keys (run (snd (get full2 ''k'')) (puts [(''x'', 3)])))"
    using promoted_key_survives[OF h a(1)] a(2) by blast
  moreover have "''k'' \<notin> set (keys (run (snd (get full2 ''k'')) (puts [(''x'', 3), (''y'', 4), (''z'', 5)])))"
    using promoted_key_survives[OF h b(1)] b(2,3,4) by blast
  ultimately show ?thesis using h a b by blast
qed

text \<open>
  In a full cache of size 2 a hit on \<open>k\<close> followed by 2 insertions of distinct other keys
  evicts \<open>k\<close>.
\<close>

theorem promoted_key_evicted_after_max_puts:
  "int (length (cache full2)) = max_size full2 \<and> fst (get full2 ''k'') = Some 1 \<and>
   distinct [''x'', ''y''] \<and> ''k'' \<notin> set [''x'', ''y''] \<and> int (length [''x'', ''y'']) = max_size full2 \<and>
   ''k'' \<notin> set (keys (run (snd (get full2 ''k'')) [Put ''x'' 3, Put ''y'' 4]))"
  by (simp add: full2_def get_def run_def put_def keys_def)

subsection \<open>Navigation\<close>

lemma display_current_image_fields [simp]:
  "current_index (display_current_image g) = current_index g"
  "filtered_images (display_current_image g) = filtered_images g"
  "zoom_level (display_current_image g) = zoom_level g"
  "pan_x (display_current_image g) = pan_x g"
  "pan_y (display_current_image g) = pan_y g"
  by (simp_all add: display_current_image_def)

lemma nav_step_index_ok: "index_ok g \<Longrightarrow> index_ok (nav_step g op)"
  by (cases op) (auto simp: index_ok_def next_img_def prev_img_def)

lemma nav_run_index_ok: "index_ok g \<Longrightarrow> index_ok (nav_run g ops)"
  unfolding nav_run_def
  by (induction ops arbitrary: g) (simp_all add: nav_step_index_ok)

text \<open>
  C10.  With a non-empty filtered list and the index inside \<open>[0, length - 1]\<close>, every
  sequence of \<open>next_img\<close> and \<open>prev_img\<close> keeps the index inside that range; \<open>next_img\<close> at
  the last index and \<open>prev_img\<close> at index 0 change nothing at all; any other \<open>next_img\<close> or
  \<open>prev_img\<close> moves the index by exactly one and resets the zoom level to 1.0 and both pan
  offsets to 0.
\<close>

theorem navigation_bounds:
  assumes "filtered_images g \<noteq> []" and "index_ok g"
  shows "index_ok (nav_run g ops)
    \<and> (current_index g = int (length (filtered_images g)) - 1 \<longrightarrow> next_img g = g)
    \<and> (current_index g = 0 \<longrightarrow> prev_img g = g)
    \<and> (current_index g < int (length (filtered_images g)) - 1 \<longrightarrow>
         current_index (next_img g) = current_index g + 1 \<and> zoom_level (next_img g) = 1
         \<and> pan_x (next_img g) = 0 \<and> pan_y (next_img g) = 0)
    \<and> (0 < current_index g \<longrightarrow>
         current_index (prev_img g) = current_index g - 1 \<and> zoom_level (prev_img g) = 1
         \<and> pan_x (prev_img g) = 0 \<and> pan_y (prev_img g) = 0)"
  using assms nav_run_index_ok[of g ops]
  by (simp add: next_img_def prev_img_def)

theorem navigation_bounds_witness:
  "filtered_images nav_example \<noteq> [] \<and> index_ok nav_example
   \<and> index_ok (nav_run nav_example [Next_img, Next_img, Prev_img])
   \<and> current_index (next_img nav_example) = 1 \<and> zoom_level (next_img nav_example) = 1
   \<and> pan_x (next_img nav_example) = 0 \<and> pan_y (next_img nav_example) = 0
   \<and> prev_img nav_example = nav_example
   \<and> next_img (next_img nav_example) = next_img nav_example
   \<and> current_index (prev_img (next_img nav_example)) = 0"
proof -
  have h: "filtered_images nav_example \<noteq> []" "index_ok nav_example"
    by (simp_all add: nav_example_def init_gallery_def index_ok_def)
  have i: "current_index nav_example = 0" "length (filtered_images nav_example) = 2"
    by (simp_all add: nav_example_def init_gallery_def)
  have h': "filtered_images (next_img nav_example) \<noteq> []" "index_ok (next_img nav_example)"
    and i': "current_index (next_img nav_example) = 1" "length (filtered_images (next_img nav_example)) = 2"
    by (simp_all add: nav_example_def init_gallery_def index_ok_def next_img_def)
  from navigation_bounds[OF h, of "[Next_img, Next_img, Prev_img]"]
    navigation_bounds[OF h', of "[]"] h i i' show ?thesis by simp
qed

subsection \<open>Zoom\<close>

lemma zoom_step_range: "zoom_in_range g \<Longrightarrow> zoom_in_range (zoom_step g op)"
  by (cases op) (auto simp: zoom_in_range_def zoom_in_fn_def zoom_out_fn_def Let_def max_def min_def)

lemma zoom_run_range: "zoom_in_range g \<Longrightarrow> zoom_in_range (zoom_run g ops)"
  unfolding zoom_run_def
  by (induction ops arbitrary: g) (simp_all add: zoom_step_range)

lemma init_gallery_zoom_in_range: "zoom_in_range init_gallery"
  by (simp add: zoom_in_range_def init_gallery_def)

text \<open>
  C6, as the code has it.  From a zoom level in \<open>[0.25, 5.0]\<close> every sequence of zoom
  requests stays in \<open>[0.25, 5.0]\<close>; \<open>zoom_in_fn\<close> adds exactly 0.25 unless that would pass
  5.0, where it yields 5.0; \<open>zoom_out_fn\<close> subtracts exactly 0.25 unless that would pass
  below 0.25, where it yields 0.25; and a zoom-out that ends at a level of at most 1.0 leaves
  both pan offsets at 0.
\<close>

theorem zoom_clamped:
  assumes "zoom_in_range g"
  shows "zoom_in_range (zoom_run g ops)
    \<and> zoom_level (zoom_in_fn g) = (if zoom_level g + 1 / 4 \<le> 5 then zoom_level g + 1 / 4 else 5)
    \<and> zoom_level (zoom_out_fn g) = (if 1 / 4 \<le> zoom_level g - 1 / 4 then zoom_level g - 1 / 4 else 1 / 4)
    \<and> (zoom_level (zoom_out_fn g) \<le> 1 \<longrightarrow> pan_x (zoom_out_fn g) = 0 \<and> pan_y (zoom_out_fn g) = 0)"
proof -
  have "zoom_in_range (zoom_run g ops)" using assms by (rule zoom_run_range)
  moreover have "zoom_level (zoom_in_fn g) = (if zoom_level g + 1 / 4 \<le> 5 then zoom_level g + 1 / 4 else 5)"
    by (simp add: zoom_in_fn_def min_def)
  moreover have "zoom_level (zoom_out_fn g) = (if 1 / 4 \<le> zoom_level g - 1 / 4 then zoom_level g - 1 / 4 else 1 / 4)"
    by (simp add: zoom_out_fn_def Let_def max_def)
  moreover have "zoom_level (zoom_out_fn g) \<le> 1 \<longrightarrow> pan_x (zoom_out_fn g) = 0 \<and> pan_y (zoom_out_fn g) = 0"
    by (simp add: zoom_out_fn_def Let_def)
  ultimately show ?thesis by blast
qed

theorem zoom_clamped_witness:
  "zoom_in_range init_gallery
   \<and> zoom_in_range (zoom_run init_gallery [Zoom_in, Zoom_out, Zoom_out])
   \<and> zoom_level (zoom_in_fn init_gallery) = 5 / 4
   \<and> zoom_level (zoom_out_fn init_gallery) = 3 / 4
   \<and> pan_x (zoom_out_fn init_gallery) = 0 \<and> pan_y (zoom_out_fn init_gallery) = 0"
proof -
  have z: "zoom_level init_gallery = 1" by (simp add: init_gallery_def)
  from zoom_clamped[OF init_gallery_zoom_in_range, of "[Zoom_in, Zoom_out, Zoom_out]"]
    init_gallery_zoom_in_range z
  show ?thesis by simp
qed

text \<open>
  Sixteen zoom-ins from the initial level reach 5.0, and the seventeenth changes the level
  by 0, not by 0.25.
\<close>

theorem zoom_in_at_upper_bound:
  "zoom_in_range (zoom_run init_gallery (replicate 16 Zoom_in)) \<and>
   zoom_level (zoom_run init_gallery (replicate 16 Zoom_in)) = 5 \<and>
   zoom_level (zoom_in_fn (zoom_run init_gallery (replicate 16 Zoom_in)))
     - zoom_level (zoom_run init_gallery (replicate 16 Zoom_in)) = 0"
  by (simp add: zoom_in_range_def zoom_run_def init_gallery_def zoom_in_fn_def eval_nat_numeral)

subsection \<open>Aspect ratio resolution\<close>

lemma get_aspect_ratio_fast_hit:
  "aspect_cache g p = Some r \<Longrightarrow> get_aspect_ratio_fast env g p = (r, g)"
  by (simp add: get_aspect_ratio_fast_def)

lemma get_aspect_ratio_fast_keeps:
  "aspect_cache g p = Some r \<Longrightarrow> aspect_cache (snd (get_aspect_ratio_fast env g q)) p = Some r"
  by (auto simp: get_aspect_ratio_fast_def Let_def split: option.splits sum.splits)

lemma resolve_all_keeps:
  "aspect_cache g p = Some r \<Longrightarrow> aspect_cache (resolve_all envs qs g) p = Some r"
  by (induction envs qs g rule: resolve_all.induct) (simp_all add: get_aspect_ratio_fast_keeps)

lemma get_aspect_ratio_fast_failure:
  "aspect_cache g p = None \<Longrightarrow> decode_fails env p \<Longrightarrow>
   get_aspect_ratio_fast env g p = (1, g\<lparr>aspect_decodes := aspect_decodes g @ [p]\<rparr>)"
  by (auto simp: get_aspect_ratio_fast_def decode_fails_def Let_def split: option.splits sum.splits)

lemma resolve_all_failures:
  "aspect_cache g p = None \<Longrightarrow> list_all (\<lambda>e. decode_fails e p) envs \<Longrightarrow>
   resolve_all envs (replicate (length envs) p) g
     = g\<lparr>aspect_decodes := aspect_decodes g @ replicate (length envs) p\<rparr>"
proof (induction envs arbitrary: g)
  case Nil
  then show ?case by simp
next
  case (Cons e envs)
  let ?g1 = "g\<lparr>aspect_decodes := aspect_decodes g @ [p]\<rparr>"
  from Cons.prems have 1: "get_aspect_ratio_fast e g p = (1, ?g1)"
    by (simp add: get_aspect_ratio_fast_failure)
  have "aspect_cache ?g1 p = None" using Cons.prems(1) by simp
  from Cons.IH[OF this] Cons.prems(2) show ?case
    by (simp add: 1 replicate_app_Cons_same)
qed

text \<open>
  C8.  For a path that is not memoized: while decoding fails, every call returns the default
  1.0, memoizes nothing and decodes again on the next call (after any number of failed
  calls the log holds one decode per call and the cache is as before); when decoding
  succeeds, the call memoizes and returns the float \<open>width / height\<close>, and every later call,
  whatever was resolved in between and whatever the decoder would then answer, returns that
  ratio and leaves the state, decode log included, as it is.  A decode either fails or
  succeeds, and it succeeds for every image of a positive height and a width below
  \<open>2\<^sup>1\<^sup>0\<^sup>2\<^sup>3\<close>.
\<close>

theorem aspect_ratio_memoization:
  assumes "aspect_cache g p = None"
  shows "(list_all (\<lambda>e. decode_fails e p) envs \<and> decode_fails env p \<longrightarrow>
           resolve_all envs (replicate (length envs) p) g
             = g\<lparr>aspect_decodes := aspect_decodes g @ replicate (length envs) p\<rparr>
         \<and> get_aspect_ratio_fast env (resolve_all envs (replicate (length envs) p) g) p
             = (1, g\<lparr>aspect_decodes := aspect_decodes g @ replicate (length envs) p @ [p]\<rparr>))
    \<and> (image_open env p = Some (w, h) \<and> int_truediv w h = Inr r \<longrightarrow>
           get_aspect_ratio_fast env g p
             = (r, g\<lparr>aspect_decodes := aspect_decodes g @ [p],
                      aspect_cache := (aspect_cache g)(p \<mapsto> r)\<rparr>)
         \<and> get_aspect_ratio_fast env' (resolve_all envs qs (snd (get_aspect_ratio_fast env g p))) p
             = (r, resolve_all envs qs (snd (get_aspect_ratio_fast env g p))))
    \<and> (decode_fails env p \<or> (\<exists>w h r. image_open env p = Some (w, h) \<and> int_truediv w h = Inr r))
    \<and> (image_open env p = Some (w, h) \<and> 0 \<le> w \<and> w < 2 ^ 1023 \<and> 0 < h \<longrightarrow> \<not> decode_fails env p)"
proof (intro conjI impI)
  assume f: "list_all (\<lambda>e. decode_fails e p) envs \<and> decode_fails env p"
  show 1: "resolve_all envs (replicate (length envs) p) g
             = g\<lparr>aspect_decodes := aspect_decodes g @ replicate (length envs) p\<rparr>"
    using assms f by (simp add: resolve_all_failures)
  have "aspect_cache (g\<lparr>aspect_decodes := aspect_decodes g @ replicate (length envs) p\<rparr>) p = None"
    using assms by simp
  from get_aspect_ratio_fast_failure[OF this, of env] f
  show "get_aspect_ratio_fast env (resolve_all envs (replicate (length envs) p) g) p
             = (1, g\<lparr>aspect_decodes := aspect_decodes g @ replicate (length envs) p @ [p]\<rparr>)"
    by (simp add: 1)
next
  assume ok: "image_open env p = Some (w, h) \<and> int_truediv w h = Inr r"
  show 2: "get_aspect_ratio_fast env g p
             = (r, g\<lparr>aspect_decodes := aspect_decodes g @ [p],
                      aspect_cache := (aspect_cache g)(p \<mapsto> r)\<rparr>)"
    using assms ok by (simp add: get_aspect_ratio_fast_def Let_def)
  have "aspect_cache (snd (get_aspect_ratio_fast env g p)) p = Some r"
    by (simp add: 2)
  then have "aspect_cache (resolve_all envs qs (snd (get_aspect_ratio_fast env g p))) p = Some r"
    by (rule resolve_all_keeps)
  then show "get_aspect_ratio_fast env' (resolve_all envs qs (snd (get_aspect_ratio_fast env g p))) p
             = (r, resolve_all envs qs (snd (get_aspect_ratio_fast env g p)))"
    by (rule get_aspect_ratio_fast_hit)
next
  show "decode_fails env p \<or> (\<exists>w h r. image_open env p = Some (w, h) \<and> int_truediv w h = Inr r)"
  proof (cases "image_open env p")
    case None
    then show ?thesis by (simp add: decode_fails_def)
  next
    case (Some wh)
    obtain a b where wh: "wh = (a, b)" by (cases wh)
    show ?thesis by (cases "int_truediv a b") (simp_all add: decode_fails_def Some wh)
  qed
next
  assume "image_open env p = Some (w, h) \<and> 0 \<le> w \<and> w < 2 ^ 1023 \<and> 0 < h"
  then show "\<not> decode_fails env p"
    using int_truediv_total[of w h] by (auto simp: decode_fails_def)
qed

theorem aspect_ratio_memoization_witness:
  "aspect_cache init_gallery ''bad.png'' = None \<and> aspect_cache init_gallery ''a.png'' = None
   \<and> decode_fails example_pil ''bad.png''
   \<and> get_aspect_ratio_fast example_pil (resolve_all [example_pil, example_pil] [''bad.png'', ''bad.png''] init_gallery) ''bad.png''
       = (1, init_gallery\<lparr>aspect_decodes := [''bad.png'', ''bad.png'', ''bad.png'']\<rparr>)
   \<and> image_open example_pil ''a.png'' = Some (400, 200) \<and> int_truediv 400 200 = Inr 2
   \<and> get_aspect_ratio_fast example_pil init_gallery ''a.png''
       = (2, init_gallery\<lparr>aspect_decodes := [''a.png''], aspect_cache := [''a.png'' \<mapsto> 2]\<rparr>)
   \<and> fst (get_aspect_ratio_fast example_pil
             (resolve_all [example_pil] [''bad.png''] (snd (get_aspect_ratio_fast example_pil init_gallery ''a.png''))) ''a.png'') = 2
   \<and> \<not> decode_fails example_pil ''a.png''
   \<and> image_open photo_pil ''a.png'' = Some (90, 70)
   \<and> get_aspect_ratio_fast photo_pil init_gallery ''a.png''
       = (5790342378047781 / 4503599627370496,
          init_gallery\<lparr>aspect_decodes := [''a.png''],
            aspect_cache := [''a.png'' \<mapsto> 5790342378047781 / 4503599627370496]\<rparr>)"
proof -
  have c: "aspect_cache init_gallery ''bad.png'' = None" "aspect_cache init_gallery ''a.png'' = None"
    by (simp_all add: init_gallery_def)
  have f: "list_all (\<lambda>e. decode_fails e ''bad.png'') [example_pil, example_pil] \<and> decode_fails example_pil ''bad.png''"
    by (simp add: decode_fails_def example_pil_def)
  have o: "image_open example_pil ''a.png'' = Some (400, 200) \<and> int_truediv 400 200 = Inr 2"
    by (simp add: example_pil_def int_truediv_examples)
  have o': "image_open photo_pil ''a.png'' = Some (90, 70)
      \<and> int_truediv 90 70 = Inr (5790342378047781 / 4503599627370496)"
    by (simp add: photo_pil_def int_truediv_examples)
  have b: "image_open example_pil ''a.png'' = Some (400, 200) \<and> (0::int) \<le> 400 \<and> (400::int) < 2 ^ 1023 \<and> (0::int) < 200"
    by (simp add: example_pil_def)
  have d: "aspect_decodes init_gallery = []" "aspect_cache init_gallery = Map.empty"
    by (simp_all add: init_gallery_def)
  from aspect_ratio_memoization[OF c(1), where envs = "[example_pil, example_pil]" and env = example_pil] f
  have "get_aspect_ratio_fast example_pil
          (resolve_all [example_pil, example_pil] (replicate (length [example_pil, example_pil]) ''bad.png'') init_gallery) ''bad.png''
        = (1, init_gallery\<lparr>aspect_decodes := aspect_decodes init_gallery
               @ replicate (length [example_pil, example_pil]) ''bad.png'' @ [''bad.png'']\<rparr>)"
    by blast
  then have r1: "get_aspect_ratio_fast example_pil
          (resolve_all [example_pil, example_pil] [''bad.png'', ''bad.png''] init_gallery) ''bad.png''
        = (1, init_gallery\<lparr>aspect_decodes := [''bad.png'', ''bad.png'', ''bad.png'']\<rparr>)"
    by (simp add: d del: resolve_all.simps)
  from aspect_ratio_memoization[OF c(2), where env = example_pil and w = 400 and h = 200 and r = 2
         and env' = example_pil and envs = "[example_pil]" and qs = "[''bad.png'']"] o
  have "get_aspect_ratio_fast example_pil init_gallery ''a.png''
             = (2, init_gallery\<lparr>aspect_decodes := aspect_decodes init_gallery @ [''a.png''],
                  aspect_cache := (aspect_cache init_gallery)(''a.png'' \<mapsto> 2)\<rparr>)
         \<and> get_aspect_ratio_fast example_pil (resolve_all [example_pil] [''bad.png''] (snd (get_aspect_ratio_fast example_pil init_gallery ''a.png''))) ''a.png''
             = (2, resolve_all [example_pil] [''bad.png''] (snd (get_aspect_ratio_fast example_pil init_gallery ''a.png'')))"
    by blast
  note t = this
  from t[THEN conjunct1] have r2: "get_aspect_ratio_fast example_pil init_gallery ''a.png''
       = (2, init_gallery\<lparr>aspect_decodes := [''a.png''], aspect_cache := [''a.png'' \<mapsto> 2]\<rparr>)"
    by (simp add: d)
  from t[THEN conjunct2] have r3: "fst (get_aspect_ratio_fast example_pil
             (resolve_all [example_pil] [''bad.png''] (snd (get_aspect_ratio_fast example_pil init_gallery ''a.png''))) ''a.png'')
           = 2"
    by (simp only: fst_conv)
  from aspect_ratio_memoization[OF c(2), where env = example_pil and w = 400 and h = 200] b
  have r4: "\<not> decode_fails example_pil ''a.png''" by blast
  from aspect_ratio_memoization[OF c(2), where env = photo_pil and w = 90 and h = 70
         and r = "5790342378047781 / 4503599627370496"] o'
  have "get_aspect_ratio_fast photo_pil init_gallery ''a.png''
       = (5790342378047781 / 4503599627370496,
          init_gallery\<lparr>aspect_decodes := aspect_decodes init_gallery @ [''a.png''],
            aspect_cache := (aspect_cache init_gallery)(''a.png'' \<mapsto> 5790342378047781 / 4503599627370496)\<rparr>)"
    by blast
  then have r5: "get_aspect_ratio_fast photo_pil init_gallery ''a.png''
       = (5790342378047781 / 4503599627370496,
          init_gallery\<lparr>aspect_decodes := [''a.png''],
            aspect_cache := [''a.png'' \<mapsto> 5790342378047781 / 4503599627370496]\<rparr>)"
    by (simp add: d)
  from c f o o' r1 r2 r3 r4 r5 show ?thesis by blast
qed

subsection \<open>Thumbnail worker\<close>

lemma get_miss: "k \<notin> set (keys c) \<Longrightarrow> get c k = (None, c)"
proof -
  assume "k \<notin> set (keys c)"
  then have "map_of (cache c) k = None" by (simp add: keys_def map_of_eq_None_iff)
  then show ?thesis by (simp add: get_def)
qed

lemma get_hit: "k \<in> set (keys c) \<Longrightarrow> fst (get c k) \<noteq> None"
  by (auto simp: get_def keys_def map_of_eq_None_iff split: option.splits)

text \<open>
  C7, as the code has it.  For a task taken from the queue: when the thumbnail cache holds
  its key, nothing is published; when it does not and decoding, the two divisions and
  resampling succeed, exactly one result is appended, whose thumbnail has the target width,
  the height \<open>int(width / (w / h))\<close> in float arithmetic and the filter \<open>LANCZOS\<close> for a
  priority above 5 and \<open>BILINEAR\<close> otherwise; when decoding, a division or resampling
  raises, nothing is published and the state is as before.
\<close>

theorem worker_publishes:
  "((p, width) \<in> set (keys (thumb_cache g)) \<longrightarrow>
      result_queue (thumbnail_worker env g (p, width, priority)) = result_queue g)
   \<and> ((p, width) \<notin> set (keys (thumb_cache g)) \<and> image_open env p = Some (w, h)
       \<and> int_truediv w h = Inr aspect \<and> py_int_div width aspect = Inr new_h
       \<and> \<not> resize_raises env (w, h) (width, new_h) \<longrightarrow>
      thumbnail_worker env g (p, width, priority) =
        g\<lparr>result_queue := result_queue g @
           [((p, width),
             make_thumb (width, new_h) (if priority > 5 then LANCZOS else BILINEAR), p)]\<rparr>)
   \<and> ((p, width) \<notin> set (keys (thumb_cache g))
       \<and> (decode_fails env p
          \<or> (\<exists>w h aspect. image_open env p = Some (w, h) \<and> int_truediv w h = Inr aspect
                \<and> (isl (py_int_div width aspect)
                   \<or> (\<exists>new_h. py_int_div width aspect = Inr new_h
                         \<and> resize_raises env (w, h) (width, new_h))))) \<longrightarrow>
      thumbnail_worker env g (p, width, priority) = g)"
proof (intro conjI impI)
  assume "(p, width) \<in> set (keys (thumb_cache g))"
  from get_hit[OF this] obtain t tc where "get (thumb_cache g) (p, width) = (Some t, tc)"
    by (cases "get (thumb_cache g) (p, width)") auto
  then show "result_queue (thumbnail_worker env g (p, width, priority)) = result_queue g"
    by (simp add: thumbnail_worker_def)
next
  assume a: "(p, width) \<notin> set (keys (thumb_cache g)) \<and> image_open env p = Some (w, h)
       \<and> int_truediv w h = Inr aspect \<and> py_int_div width aspect = Inr new_h
       \<and> \<not> resize_raises env (w, h) (width, new_h)"
  then have "get (thumb_cache g) (p, width) = (None, thumb_cache g)" by (simp add: get_miss)
  then show "thumbnail_worker env g (p, width, priority) =
        g\<lparr>result_queue := result_queue g @
           [((p, width),
             make_thumb (width, new_h) (if priority > 5 then LANCZOS else BILINEAR), p)]\<rparr>"
    using a by (simp add: thumbnail_worker_def Let_def)
next
  assume a: "(p, width) \<notin> set (keys (thumb_cache g))
       \<and> (decode_fails env p
          \<or> (\<exists>w h aspect. image_open env p = Some (w, h) \<and> int_truediv w h = Inr aspect
                \<and> (isl (py_int_div width aspect)
                   \<or> (\<exists>new_h. py_int_div width aspect = Inr new_h
                         \<and> resize_raises env (w, h) (width, new_h)))))"
  then have "get (thumb_cache g) (p, width) = (None, thumb_cache g)" by (simp add: get_miss)
  then show "thumbnail_worker env g (p, width, priority) = g"
    using a by (auto simp: thumbnail_worker_def Let_def decode_fails_def isl_def
        split: option.splits sum.splits)
qed

theorem worker_publishes_witness:
  "(''a.png'', 200) \<notin> set (keys (thumb_cache init_gallery))
   \<and> image_open example_pil ''a.png'' = Some (400, 200)
   \<and> int_truediv 400 200 = Inr 2 \<and> py_int_div 200 2 = Inr 100
   \<and> \<not> resize_raises example_pil (400, 200) (200, 100)
   \<and> thumbnail_worker example_pil init_gallery (''a.png'', 200, 10) =
        init_gallery\<lparr>result_queue := [((''a.png'', 200), make_thumb (200, 100) LANCZOS, ''a.png'')]\<rparr>
   \<and> thumbnail_worker example_pil init_gallery (''a.png'', 200, 5) =
        init_gallery\<lparr>result_queue := [((''a.png'', 200), make_thumb (200, 100) BILINEAR, ''a.png'')]\<rparr>
   \<and> (''a.png'', 200) \<in> set (keys (thumb_cache cached_gallery))
   \<and> result_queue (thumbnail_worker example_pil cached_gallery (''a.png'', 200, 10)) = []
   \<and> decode_fails example_pil ''bad.png''
   \<and> thumbnail_worker example_pil init_gallery (''bad.png'', 200, 10) = init_gallery
   \<and> (''banner.png'', 200) \<notin> set (keys (thumb_cache init_gallery))
   \<and> image_open photo_pil ''banner.png'' = Some (250, 110)
   \<and> \<not> resize_raises photo_pil (250, 110) (200, 87)
   \<and> thumbnail_worker photo_pil init_gallery (''banner.png'', 200, 5) =
        init_gallery\<lparr>result_queue := [((''banner.png'', 200), make_thumb (200, 87) BILINEAR, ''banner.png'')]\<rparr>"
proof -
  have k: "(''a.png'', 200) \<notin> set (keys (thumb_cache init_gallery))"
    "(''bad.png'', 200) \<notin> set (keys (thumb_cache init_gallery))"
    "(''banner.png'', 200) \<notin> set (keys (thumb_cache init_gallery))"
    "(''a.png'', 200) \<in> set (keys (thumb_cache cached_gallery))"
    by (simp_all add: init_gallery_def cached_gallery_def new_cache_def keys_def put_def)
  have o: "image_open example_pil ''a.png'' = Some (400, 200)" "decode_fails example_pil ''bad.png''"
    "image_open photo_pil ''banner.png'' = Some (250, 110)"
    by (simp_all add: example_pil_def photo_pil_def decode_fails_def)
  have h: "int_truediv 400 200 = Inr 2" "py_int_div 200 2 = Inr 100"
    "int_truediv 250 110 = Inr (5117726849284655 / 2251799813685248)"
    "py_int_div 200 (5117726849284655 / 2251799813685248) = Inr 87"
    by (simp_all only: int_truediv_examples py_int_div_examples)
  have r: "\<not> resize_raises example_pil (400, 200) (200, 100)"
    "\<not> resize_raises photo_pil (250, 110) (200, 87)"
    by (simp_all add: example_pil_def photo_pil_def)
  have q: "result_queue init_gallery = []" "result_queue cached_gallery = []"
    by (simp_all add: init_gallery_def cached_gallery_def)
  from worker_publishes[of "''a.png''" 200 init_gallery example_pil 10 400 200 2 100] k o r h
  have 1: "thumbnail_worker example_pil init_gallery (''a.png'', 200, 10) =
        init_gallery\<lparr>result_queue := result_queue init_gallery @
           [((''a.png'', 200), make_thumb (200, 100) (if (10::int) > 5 then LANCZOS else BILINEAR), ''a.png'')]\<rparr>"
    by blast
  from worker_publishes[of "''a.png''" 200 init_gallery example_pil 5 400 200 2 100] k o r h
  have 2: "thumbnail_worker example_pil init_gallery (''a.png'', 200, 5) =
        init_gallery\<lparr>result_queue := result_queue init_gallery @
           [((''a.png'', 200), make_thumb (200, 100) (if (5::int) > 5 then LANCZOS else BILINEAR), ''a.png'')]\<rparr>"
    by blast
  from worker_publishes[of "''a.png''" 200 cached_gallery example_pil 10] k
  have 3: "result_queue (thumbnail_worker example_pil cached_gallery (''a.png'', 200, 10)) = result_queue cached_gallery"
    by blast
  from worker_publishes[of "''bad.png''" 200 init_gallery example_pil 10] k o
  have 4: "thumbnail_worker example_pil init_gallery (''bad.png'', 200, 10) = init_gallery"
    by blast
  from worker_publishes[of "''banner.png''" 200 init_gallery photo_pil 5 250 110
         "5117726849284655 / 2251799813685248" 87] k o r h
  have 5: "thumbnail_worker photo_pil init_gallery (''banner.png'', 200, 5) =
        init_gallery\<lparr>result_queue := result_queue init_gallery @
           [((''banner.png'', 200), make_thumb (200, 87) (if (5::int) > 5 then LANCZOS else BILINEAR), ''banner.png'')]\<rparr>"
    by blast
  from 1 2 3 4 5 k o r q h show ?thesis by simp
qed

text \<open>
  A popped task whose key is not cached and whose file does not decode: no result is
  published.
\<close>

theorem worker_decode_failure_publishes_nothing:
  "(''bad.png'', 200) \<notin> set (keys (thumb_cache init_gallery))
   \<and> image_open example_pil ''bad.png'' = None
   \<and> result_queue (thumbnail_worker example_pil init_gallery (''bad.png'', 200, 10)) = []"
  by (simp add: init_gallery_def new_cache_def keys_def example_pil_def thumbnail_worker_def get_def)

subsection \<open>Viewport culling\<close>

text \<open>
  What the code does cull: a pass over entries that all lie outside its own window, from 300
  above the scrolled top to 600 below the bottom of the canvas, draws and enqueues nothing.
\<close>

lemma render_items_skips:
  "list_all (\<lambda>(p, pos). entirely_outside pos visible_top visible_bottom) items \<Longrightarrow>
   render_items visible_top visible_bottom items s = s"
proof (induction items)
  case Nil
  then show ?case by simp
next
  case (Cons item items)
  obtain p x y w h where i: "item = (p, (x, y, w, h))" by (cases item) auto
  obtain g canvas where s: "s = (g, canvas)" by (cases s)
  from Cons show ?case by (simp add: i s entirely_outside_def)
qed

lemma update_visible_thumbs_culls:
  assumes "list_all (\<lambda>(p, pos). entirely_outside pos
             (yview_top cv * of_int (case scrollregion g of None \<Rightarrow> winfo_height cv | Some (x0, y0, x1, y1) \<Rightarrow> y1) - 300)
             (yview_top cv * of_int (case scrollregion g of None \<Rightarrow> winfo_height cv | Some (x0, y0, x1, y1) \<Rightarrow> y1)
                + of_int (winfo_height cv) + 600))
           (image_positions g)"
  shows "update_visible_thumbs cv g = (g, [])"
  using assms by (simp add: update_visible_thumbs_def Let_def render_items_skips)

lemma first_index_simps:
  "first_index [] x = 0"
  "first_index (y # ys) x = (if y = x then 0 else Suc (first_index ys x))"
  by (simp_all add: first_index_def)

lemma strips_layout: "calculate_layout window strips_pil strips = Inr strips_laid_out"
  by (simp add: calculate_layout_def window_def strips_def strips_pil_def init_gallery_def
      column_width_def initial_heights_def layout_cols_def get_aspect_ratio_fast_def
      place_image_def first_index_simps int_truediv_examples py_int_div_examples mk_image_def
      strips_laid_out_def Let_def eval_nat_numeral)

lemma strips_render:
  "update_visible_thumbs window strips_laid_out =
     (strips_laid_out\<lparr>thumb_queue := [(''a.png'', 261, 10), (''b.png'', 261, 10), (''c.png'', 261, 10), (''d.png'', 261, 5)]\<rparr>,
      [Placeholder 4 4 265 1048, Placeholder 269 4 530 1048, Placeholder 534 4 795 1048,
       Placeholder 4 1052 265 2096])"
  by (simp add: update_visible_thumbs_def window_def strips_laid_out_def strips_def init_gallery_def
      get_thumbnail_def get_def new_cache_def queue_thumbnail_def Let_def)

text \<open>
  C5, at the input where the code departs from it.  The fourth strip is laid out at
  \<open>y = 1052\<close>.  With the canvas 600 high and scrolled to the top, the window the specification gives
  for an overscan of 300 is \<open>[-300, 900]\<close>, so the strip's span lies entirely outside it; the
  render pass nevertheless draws its placeholder and enqueues its task, because the code's
  bottom bound is \<open>0 + 600 + 600 = 1200\<close>.
\<close>

theorem culling_window_too_deep:
  "calculate_layout window strips_pil strips = Inr strips_laid_out
   \<and> map_of (image_positions strips_laid_out) ''d.png'' = Some (4, 1052, 261, 1044)
   \<and> entirely_outside (4, 1052, 261, 1044)
         (spec_visible_top (yview_top window) 2104 300)
         (spec_visible_bottom (yview_top window) 2104 (winfo_height window) 300)
   \<and> Placeholder 4 1052 265 2096 \<in> set (snd (update_visible_thumbs window strips_laid_out))
   \<and> (''d.png'', 261, 5) \<in> set (thumb_queue (fst (update_visible_thumbs window strips_laid_out)))"
  unfolding strips_render strips_layout
  by (simp add: strips_laid_out_def entirely_outside_def spec_visible_top_def spec_visible_bottom_def window_def)

subsection \<open>Masonry layout\<close>

lemma aspect_of_known_ratio: "aspect_of env g p = known_ratio env g p"
  by (auto simp: aspect_of_def known_ratio_def get_aspect_ratio_fast_def Let_def
      split: option.splits sum.splits)

lemma same_resolver_refl: "same_resolver env g g"
  by (simp add: same_resolver_def)

lemma same_resolver_trans:
  "same_resolver env g g1 \<Longrightarrow> same_resolver env g1 g2 \<Longrightarrow> same_resolver env g g2"
  by (simp add: same_resolver_def)

lemma resolver_answer_stable:
  "aspect_of env (snd (get_aspect_ratio_fast env g q)) p = aspect_of env g p"
  by (auto simp: aspect_of_def get_aspect_ratio_fast_def Let_def split: option.splits sum.splits)

lemma resolver_keeps_fields:
  "gap (snd (get_aspect_ratio_fast env g q)) = gap g"
  "image_positions (snd (get_aspect_ratio_fast env g q)) = image_positions g"
  by (auto simp: get_aspect_ratio_fast_def Let_def split: option.splits sum.splits)

lemma aspect_of_positions [simp]:
  "aspect_of env (g\<lparr>image_positions := ps\<rparr>) p = aspect_of env g p"
  by (auto simp: aspect_of_def get_aspect_ratio_fast_def Let_def split: option.splits sum.splits)

lemma place_image_ok:
  fixes hs :: "int list" and w :: int
  assumes "py_int_div w (aspect_of env g (path img)) = Inr h"
  defines "c \<equiv> first_index hs (Min (set hs))"
  shows "\<exists>g'. place_image env w img (hs, g) = Inr (hs[c := hs ! c + h + gap g], g')
           \<and> image_positions g' =
               AList.update (path img) (gap g + int c * (w + gap g), hs ! c, w, h) (image_positions g)
           \<and> same_resolver env g g'"
proof -
  obtain a g1 where r: "get_aspect_ratio_fast env g (path img) = (a, g1)"
    by (cases "get_aspect_ratio_fast env g (path img)")
  then have a: "a = aspect_of env g (path img)" by (simp add: aspect_of_def)
  have g1: "g1 = snd (get_aspect_ratio_fast env g (path img))" by (simp add: r)
  have s: "same_resolver env g g1"
    unfolding same_resolver_def g1 by (simp add: resolver_answer_stable resolver_keeps_fields)
  have ps: "image_positions g1 = image_positions g"
    unfolding g1 by (rule resolver_keeps_fields)
  let ?g' = "g1\<lparr>image_positions :=
                AList.update (path img) (gap g + int c * (w + gap g), hs ! c, w, h) (image_positions g1)\<rparr>"
  have "place_image env w img (hs, g) = Inr (hs[c := hs ! c + h + gap g], ?g')"
    using assms(1) by (simp add: place_image_def r a c_def Let_def)
  moreover have "image_positions ?g' =
      AList.update (path img) (gap g + int c * (w + gap g), hs ! c, w, h) (image_positions g)"
    by (simp add: ps)
  moreover have "same_resolver env g ?g'"
    using s by (simp add: same_resolver_def)
  ultimately show ?thesis by blast
qed

lemma layout_loop_append:
  "layout_loop env w (xs @ ys) s =
     (case layout_loop env w xs s of Inl e \<Rightarrow> Inl e | Inr s1 \<Rightarrow> layout_loop env w ys s1)"
  by (induction xs arbitrary: s) (auto split: sum.splits)

lemma layout_loop_ok:
  "\<forall>img \<in> set imgs. \<exists>h. py_int_div w (aspect_of env g (path img)) = Inr h \<Longrightarrow>
   \<exists>hs' g'. layout_loop env w imgs (hs, g) = Inr (hs', g') \<and> same_resolver env g g'
      \<and> length hs' = length hs
      \<and> (\<forall>p. p \<notin> path ` set imgs \<longrightarrow> map_of (image_positions g') p = map_of (image_positions g) p)"
proof (induction imgs arbitrary: hs g)
  case Nil
  then show ?case by (simp add: same_resolver_refl)
next
  case (Cons img imgs)
  then obtain h where hd: "py_int_div w (aspect_of env g (path img)) = Inr h" by auto
  define c where "c = first_index hs (Min (set hs))"
  define hs1 where "hs1 = hs[c := hs ! c + h + gap g]"
  define v where "v = (gap g + int c * (w + gap g), hs ! c, w, h)"
  from place_image_ok[OF hd, of hs]
  obtain g1 where p: "place_image env w img (hs, g) = Inr (hs1, g1)"
    and psv: "image_positions g1 = AList.update (path img) v (image_positions g)"
    and s1: "same_resolver env g g1"
    unfolding c_def hs1_def v_def by blast
  have l1: "length hs1 = length hs" by (simp add: hs1_def)
  have "\<forall>i \<in> set imgs. \<exists>h. py_int_div w (aspect_of env g1 (path i)) = Inr h"
    using Cons.prems s1 by (simp add: same_resolver_def)
  from Cons.IH[OF this, of hs1]
  obtain hs' g' where l: "layout_loop env w imgs (hs1, g1) = Inr (hs', g')"
    and s: "same_resolver env g1 g'" and len: "length hs' = length hs1"
    and m: "\<forall>p. p \<notin> path ` set imgs \<longrightarrow> map_of (image_positions g') p = map_of (image_positions g1) p"
    by blast
  have "layout_loop env w (img # imgs) (hs, g) = Inr (hs', g')"
    by (simp add: p l)
  moreover have "same_resolver env g g'" using s1 s by (rule same_resolver_trans)
  moreover have "length hs' = length hs" using len l1 by simp
  moreover have "\<forall>p. p \<notin> path ` set (img # imgs) \<longrightarrow>
      map_of (image_positions g') p = map_of (image_positions g) p"
    using m by (simp add: psv AList.update_conv')
  ultimately show ?case by blast
qed

lemma layout_cols_pos: "1 \<le> layout_cols g"
  by (simp add: layout_cols_def Let_def)

lemma column_width_ge: "50 \<le> column_width cv g"
  by (simp add: column_width_def)

text \<open>
  When the column width is exact as a float and every quotient \<open>column_width / ratio\<close> of a
  positive ratio stays in the range of a float, no division of the loop raises.
\<close>

lemma divisions_ok:
  fixes cv :: tk_canvas
  assumes pos: "\<forall>img \<in> set (filtered_images g). 0 < known_ratio env g (path img)"
    and cw: "column_width cv g < 2 ^ 53"
    and rng: "\<forall>img \<in> set (filtered_images g).
        of_int (column_width cv g) / known_ratio env g (path img) < 2 ^ 1023"
    and i: "img \<in> set (filtered_images g)"
  shows "\<exists>q. round_double (of_int (column_width cv g) / known_ratio env g (path img)) = Some q
           \<and> 0 \<le> q
           \<and> py_int_div (column_width cv g) (aspect_of env g (path img)) = Inr \<lfloor>q\<rfloor>"
proof -
  have w: "0 < column_width cv g" using column_width_ge[of cv g] by simp
  have r: "0 < known_ratio env g (path img)" using pos i by simp
  have "of_int (column_width cv g) / known_ratio env g (path img) < pow2 1023"
    using rng i by (simp add: pow2_def)
  from py_int_div_total[OF w cw r this] show ?thesis
    by (simp add: aspect_of_known_ratio)
qed

lemma layout_prefix:
  assumes nz: "\<forall>img \<in> set (filtered_images g).
      \<exists>h. py_int_div (column_width cv g) (aspect_of env g (path img)) = Inr h"
  shows "\<exists>gn. layout_loop env (column_width cv g) (take n (filtered_images g))
                 (initial_heights g, g\<lparr>image_positions := []\<rparr>) = Inr (heights_after cv env g n, gn)
              \<and> same_resolver env g gn
              \<and> length (heights_after cv env g n) = nat (layout_cols g)
              \<and> (\<forall>p. p \<notin> path ` set (take n (filtered_images g)) \<longrightarrow> map_of (image_positions gn) p = None)"
proof -
  have "\<forall>img \<in> set (take n (filtered_images g)).
      \<exists>h. py_int_div (column_width cv g) (aspect_of env (g\<lparr>image_positions := []\<rparr>) (path img)) = Inr h"
    using nz by (auto dest: in_set_takeD)
  from layout_loop_ok[OF this, of "initial_heights g"]
  obtain hs' g' where l: "layout_loop env (column_width cv g) (take n (filtered_images g))
                 (initial_heights g, g\<lparr>image_positions := []\<rparr>) = Inr (hs', g')"
    and s: "same_resolver env (g\<lparr>image_positions := []\<rparr>) g'"
    and len: "length hs' = length (initial_heights g)"
    and m: "\<forall>p. p \<notin> path ` set (take n (filtered_images g)) \<longrightarrow>
          map_of (image_positions g') p = map_of (image_positions (g\<lparr>image_positions := []\<rparr>)) p"
    by blast
  have h: "heights_after cv env g n = hs'" by (simp add: heights_after_def l)
  have "same_resolver env g g'" using s by (simp add: same_resolver_def)
  moreover have "length hs' = nat (layout_cols g)" using len by (simp add: initial_heights_def)
  moreover have "\<forall>p. p \<notin> path ` set (take n (filtered_images g)) \<longrightarrow> map_of (image_positions g') p = None"
    using m by simp
  ultimately show ?thesis using l h by blast
qed

lemma heights_after_0: "heights_after cv env g 0 = replicate (nat (layout_cols g)) (gap g)"
  by (simp add: heights_after_def initial_heights_def)

lemma layout_step:
  fixes cv :: tk_canvas
  assumes nz: "\<forall>img \<in> set (filtered_images g).
      \<exists>h. py_int_div (column_width cv g) (aspect_of env g (path img)) = Inr h"
    and n: "n < length (filtered_images g)"
    and hd: "py_int_div (column_width cv g) (aspect_of env g (path (filtered_images g ! n))) = Inr h"
  defines "hs \<equiv> heights_after cv env g n"
  defines "c \<equiv> column_of cv env g n"
  defines "w \<equiv> column_width cv g"
  shows "heights_after cv env g (Suc n) = hs[c := hs ! c + h + gap g]"
    and "\<exists>g1. layout_loop env w (take (Suc n) (filtered_images g))
                 (initial_heights g, g\<lparr>image_positions := []\<rparr>) = Inr (heights_after cv env g (Suc n), g1)
              \<and> same_resolver env g g1
              \<and> map_of (image_positions g1) (path (filtered_images g ! n))
                  = Some (gap g + int c * (w + gap g), hs ! c, w, h)"
proof -
  let ?imgs = "filtered_images g"
  let ?s0 = "(initial_heights g, g\<lparr>image_positions := []\<rparr>)"
  from layout_prefix[OF nz, of n]
  obtain gn where ln: "layout_loop env w (take n ?imgs) ?s0 = Inr (hs, gn)"
    and sn: "same_resolver env g gn"
    unfolding hs_def w_def by blast
  have hdn: "py_int_div w (aspect_of env gn (path (?imgs ! n))) = Inr h"
    using hd sn by (simp add: same_resolver_def w_def)
  from place_image_ok[OF hdn, of hs]
  obtain g1 where p: "place_image env w (?imgs ! n) (hs, gn) = Inr (hs[c := hs ! c + h + gap g], g1)"
    and ps: "image_positions g1 = AList.update (path (?imgs ! n))
               (gap g + int c * (w + gap g), hs ! c, w, h) (image_positions gn)"
    and s1: "same_resolver env gn g1"
    using sn unfolding c_def column_of_def hs_def w_def same_resolver_def by auto
  have t: "take (Suc n) ?imgs = take n ?imgs @ [?imgs ! n]"
    using n by (rule take_Suc_conv_app_nth)
  have l1: "layout_loop env w (take (Suc n) ?imgs) ?s0 = Inr (hs[c := hs ! c + h + gap g], g1)"
    unfolding t layout_loop_append by (simp add: ln p)
  show e: "heights_after cv env g (Suc n) = hs[c := hs ! c + h + gap g]"
    using l1 by (simp add: heights_after_def w_def)
  have "map_of (image_positions g1) (path (?imgs ! n))
                  = Some (gap g + int c * (w + gap g), hs ! c, w, h)"
    by (simp add: ps AList.update_conv')
  moreover have "same_resolver env g g1" using sn s1 by (rule same_resolver_trans)
  ultimately show "\<exists>g1. layout_loop env w (take (Suc n) (filtered_images g))
                 (initial_heights g, g\<lparr>image_positions := []\<rparr>) = Inr (heights_after cv env g (Suc n), g1)
              \<and> same_resolver env g g1
              \<and> map_of (image_positions g1) (path (filtered_images g ! n))
                  = Some (gap g + int c * (w + gap g), hs ! c, w, h)"
    using l1 e by auto
qed

lemma first_index_less: "x \<in> set xs \<Longrightarrow> first_index xs x < length xs"
  by (induction xs) (auto simp: first_index_simps)

lemma nth_first_index: "x \<in> set xs \<Longrightarrow> xs ! first_index xs x = x"
  by (induction xs) (auto simp: first_index_simps)

lemma first_index_Min:
  fixes hs :: "int list"
  assumes "hs \<noteq> []"
  shows "first_index hs (Min (set hs)) < length hs"
    and "hs ! first_index hs (Min (set hs)) = Min (set hs)"
proof -
  have "Min (set hs) \<in> set hs" using assms by (intro Min_in) simp_all
  then show "first_index hs (Min (set hs)) < length hs"
    and "hs ! first_index hs (Min (set hs)) = Min (set hs)"
    by (simp_all add: first_index_less nth_first_index)
qed

lemma nth_path_not_later:
  assumes "distinct (map path imgs)" and "n < length imgs"
  shows "path (imgs ! n) \<notin> path ` set (drop (Suc n) imgs)"
proof -
  have "map path imgs = map path (take n imgs) @ path (imgs ! n) # map path (drop (Suc n) imgs)"
    using assms(2) by (metis id_take_nth_drop map_append list.simps(9))
  with assms(1) have "distinct (map path (take n imgs) @ path (imgs ! n) # map path (drop (Suc n) imgs))"
    by simp
  then show ?thesis by auto
qed

lemma layout_returns:
  fixes cv :: tk_canvas
  assumes wd: "1 < winfo_width cv"
    and nz: "\<forall>img \<in> set (filtered_images g).
      \<exists>h. py_int_div (column_width cv g) (aspect_of env g (path img)) = Inr h"
  shows "\<exists>gN. layout_loop env (column_width cv g) (filtered_images g)
                 (initial_heights g, g\<lparr>image_positions := []\<rparr>)
               = Inr (heights_after cv env g (length (filtered_images g)), gN)
           \<and> heights_after cv env g (length (filtered_images g)) \<noteq> []
           \<and> calculate_layout cv env g =
               Inr (gN\<lparr>scrollregion := Some (0, 0, winfo_width cv,
                      Max (set (heights_after cv env g (length (filtered_images g)))) + gap g)\<rparr>)"
proof -
  let ?N = "length (filtered_images g)"
  from layout_prefix[OF nz, of ?N]
  obtain gN where lN: "layout_loop env (column_width cv g) (filtered_images g)
        (initial_heights g, g\<lparr>image_positions := []\<rparr>) = Inr (heights_after cv env g ?N, gN)"
    and len: "length (heights_after cv env g ?N) = nat (layout_cols g)"
    by auto
  have ne: "heights_after cv env g ?N \<noteq> []"
    using len layout_cols_pos[of g] by auto
  have "calculate_layout cv env g =
      Inr (gN\<lparr>scrollregion := Some (0, 0, winfo_width cv,
             Max (set (heights_after cv env g ?N)) + gap g)\<rparr>)"
    using wd ne by (simp add: calculate_layout_def lN Let_def)
  with lN ne show ?thesis by blast
qed

lemma layout_final:
  fixes cv :: tk_canvas
  assumes wd: "1 < winfo_width cv"
    and nz: "\<forall>img \<in> set (filtered_images g).
      \<exists>h. py_int_div (column_width cv g) (aspect_of env g (path img)) = Inr h"
    and d: "distinct (map path (filtered_images g))"
  shows "\<exists>g'. calculate_layout cv env g = Inr g'
     \<and> scrollregion g' = Some (0, 0, winfo_width cv,
           Max (set (heights_after cv env g (length (filtered_images g)))) + gap g)
     \<and> (\<forall>n h. n < length (filtered_images g) \<and>
           py_int_div (column_width cv g) (aspect_of env g (path (filtered_images g ! n))) = Inr h \<longrightarrow>
           map_of (image_positions g') (path (filtered_images g ! n)) =
             Some (gap g + int (column_of cv env g n) * (column_width cv g + gap g),
                   heights_after cv env g n ! column_of cv env g n,
                   column_width cv g, h))"
proof -
  let ?imgs = "filtered_images g"
  let ?w = "column_width cv g"
  let ?s0 = "(initial_heights g, g\<lparr>image_positions := []\<rparr>)"
  let ?N = "length ?imgs"
  from layout_returns[OF wd nz]
  obtain gN where lN: "layout_loop env ?w ?imgs ?s0 = Inr (heights_after cv env g ?N, gN)"
    and c: "calculate_layout cv env g =
      Inr (gN\<lparr>scrollregion := Some (0, 0, winfo_width cv,
             Max (set (heights_after cv env g ?N)) + gap g)\<rparr>)"
    by blast
  let ?g' = "gN\<lparr>scrollregion := Some (0, 0, winfo_width cv,
                  Max (set (heights_after cv env g ?N)) + gap g)\<rparr>"
  have pos: "map_of (image_positions gN) (path (?imgs ! n)) =
             Some (gap g + int (column_of cv env g n) * (?w + gap g),
                   heights_after cv env g n ! column_of cv env g n, ?w, h)"
    if n: "n < ?N" and hd: "py_int_div ?w (aspect_of env g (path (?imgs ! n))) = Inr h" for n h
  proof -
    from layout_step(2)[OF nz n hd]
    obtain g1 where l1: "layout_loop env ?w (take (Suc n) ?imgs) ?s0
                           = Inr (heights_after cv env g (Suc n), g1)"
      and s1: "same_resolver env g g1"
      and m1: "map_of (image_positions g1) (path (?imgs ! n)) =
             Some (gap g + int (column_of cv env g n) * (?w + gap g),
                   heights_after cv env g n ! column_of cv env g n, ?w, h)"
      by blast
    have "\<forall>img \<in> set (drop (Suc n) ?imgs). \<exists>h. py_int_div ?w (aspect_of env g1 (path img)) = Inr h"
      using nz s1 by (auto simp: same_resolver_def dest: in_set_dropD)
    from layout_loop_ok[OF this, of "heights_after cv env g (Suc n)"]
    obtain hs' g2 where l2: "layout_loop env ?w (drop (Suc n) ?imgs) (heights_after cv env g (Suc n), g1)
                               = Inr (hs', g2)"
      and m2: "\<forall>p. p \<notin> path ` set (drop (Suc n) ?imgs) \<longrightarrow>
                 map_of (image_positions g2) p = map_of (image_positions g1) p"
      by blast
    have "layout_loop env ?w (take (Suc n) ?imgs @ drop (Suc n) ?imgs) ?s0 = Inr (hs', g2)"
      unfolding layout_loop_append by (simp add: l1 l2)
    then have "g2 = gN" using lN by simp
    with m2 nth_path_not_later[OF d n] m1 show ?thesis by simp
  qed
  show ?thesis using c pos by (intro exI[of _ ?g']) simp
qed

lemma scenario_heights:
  fixes cv :: tk_canvas
  assumes len: "length (filtered_images g) = 12" and cols: "layout_cols g = 4" and gp: "gap g = 4"
    and one: "\<forall>img \<in> set (filtered_images g). aspect_of env g (path img) = 1"
    and cw: "column_width cv g < 2 ^ 53"
  shows "map (column_of cv env g) [0..<12] = [0, 1, 2, 3, 0, 1, 2, 3, 0, 1, 2, 3]"
    and "heights_after cv env g 12 = replicate 4 (3 * column_width cv g + 4 * gap g)"
proof -
  define w where "w = column_width cv g"
  have w: "50 \<le> w" unfolding w_def by (rule column_width_ge)
  have d1: "py_int_div w 1 = Inr w"
    using w cw by (intro py_int_div_one) (simp_all add: w_def)
  have nz: "\<forall>img \<in> set (filtered_images g).
      \<exists>h. py_int_div (column_width cv g) (aspect_of env g (path img)) = Inr h"
    using one d1 by (simp add: w_def)
  have a: "py_int_div (column_width cv g) (aspect_of env g (path (filtered_images g ! n))) = Inr w"
    if "n < 12" for n
    using one len that d1 by (simp add: w_def)
  have st: "heights_after cv env g (Suc n) =
      (heights_after cv env g n)[column_of cv env g n :=
         heights_after cv env g n ! column_of cv env g n + w + 4]" if "n < 12" for n
    using layout_step(1)[OF nz _ a[OF that]] that len by (simp add: gp)
  note col = column_of_def first_index_simps
  have h0: "heights_after cv env g 0 = [4, 4, 4, 4]"
    by (simp add: heights_after_0 cols gp eval_nat_numeral)
  have c0: "column_of cv env g 0 = 0" by (simp add: col h0)
  have h1: "heights_after cv env g (Suc 0) = [w + 8, 4, 4, 4]"
    using st[of 0] by (simp add: h0 c0)
  have c1: "column_of cv env g (Suc 0) = Suc 0" using w by (simp add: col h1)
  have h2: "heights_after cv env g 2 = [w + 8, w + 8, 4, 4]"
    using st[of "Suc 0"] by (simp add: h1 c1 numeral_2_eq_2)
  have c2: "column_of cv env g 2 = 2" using w by (simp add: col h2)
  have h3: "heights_after cv env g 3 = [w + 8, w + 8, w + 8, 4]"
    using st[of 2] by (simp add: h2 c2)
  have c3: "column_of cv env g 3 = 3" using w by (simp add: col h3)
  have h4: "heights_after cv env g 4 = [w + 8, w + 8, w + 8, w + 8]"
    using st[of 3] by (simp add: h3 c3)
  have c4: "column_of cv env g 4 = 0" using w by (simp add: col h4)
  have h5: "heights_after cv env g 5 = [2 * w + 12, w + 8, w + 8, w + 8]"
    using st[of 4] by (simp add: h4 c4)
  have c5: "column_of cv env g 5 = 1" using w by (simp add: col h5)
  have h6: "heights_after cv env g 6 = [2 * w + 12, 2 * w + 12, w + 8, w + 8]"
    using st[of 5] by (simp add: h5 c5)
  have c6: "column_of cv env g 6 = 2" using w by (simp add: col h6)
  have h7: "heights_after cv env g 7 = [2 * w + 12, 2 * w + 12, 2 * w + 12, w + 8]"
    using st[of 6] by (simp add: h6 c6)
  have c7: "column_of cv env g 7 = 3" using w by (simp add: col h7)
  have h8: "heights_after cv env g 8 = [2 * w + 12, 2 * w + 12, 2 * w + 12, 2 * w + 12]"
    using st[of 7] by (simp add: h7 c7)
  have c8: "column_of cv env g 8 = 0" using w by (simp add: col h8)
  have h9: "heights_after cv env g 9 = [3 * w + 16, 2 * w + 12, 2 * w + 12, 2 * w + 12]"
    using st[of 8] by (simp add: h8 c8)
  have c9: "column_of cv env g 9 = 1" using w by (simp add: col h9)
  have h10: "heights_after cv env g 10 = [3 * w + 16, 3 * w + 16, 2 * w + 12, 2 * w + 12]"
    using st[of 9] by (simp add: h9 c9)
  have c10: "column_of cv env g 10 = 2" using w by (simp add: col h10)
  have h11: "heights_after cv env g 11 = [3 * w + 16, 3 * w + 16, 3 * w + 16, 2 * w + 12]"
    using st[of 10] by (simp add: h10 c10)
  have c11: "column_of cv env g 11 = 3" using w by (simp add: col h11)
  have h12: "heights_after cv env g 12 = [3 * w + 16, 3 * w + 16, 3 * w + 16, 3 * w + 16]"
    using st[of 11] by (simp add: h11 c11)
  have u: "[0..<12] = [0, 1, 2, 3, 4, 5, 6, 7, 8, 9, 10, 11]"
    by (simp add: upt_rec)
  show "map (column_of cv env g) [0..<12] = [0, 1, 2, 3, 0, 1, 2, 3, 0, 1, 2, 3]"
    unfolding u using c0 c1 c2 c3 c4 c5 c6 c7 c8 c9 c10 c11 by simp
  have r: "replicate 4 (3 * w + 4 * gap g) = [3 * w + 16, 3 * w + 16, 3 * w + 16, 3 * w + 16]"
    by (simp add: gp eval_nat_numeral)
  show "heights_after cv env g 12 = replicate 4 (3 * column_width cv g + 4 * gap g)"
    using h12 r by (simp add: w_def)
qed

lemma layout_cols_twelve:
  "length (filtered_images g) = 12 \<Longrightarrow> num_columns g = 4 \<Longrightarrow> layout_cols g = 4"
  by (simp add: layout_cols_def Let_def)

text \<open>
  C3.  On a canvas wider than one pixel, for a list of images with distinct paths whose
  known aspect ratios (the memoized ratio, else the decoded one, else 1.0) are positive,
  with a column width that is exact as a float and quotients \<open>column_width / ratio\<close> in
  the range of a float, \<open>calculate_layout\<close> returns a layout and: the column heights start
  as one gap per column; image \<open>n\<close> goes to a column of minimum current height, and the
  position map holds for it the column's x, that column's height as y, the column width,
  and the height \<open>floor(q)\<close>, where \<open>q\<close> is \<open>column_width / ratio\<close> rounded to a float; the
  column then grows by that height plus the gap; the scroll region's height is the maximum
  column height plus one gap.  For 12 images of aspect ratio 1.0 with 4 columns and gap 4
  the images go to columns 0, 1, 2, 3 in turn, three to each, and every column ends at
  \<open>3 * column_width + 4 * gap\<close>.
\<close>

theorem masonry_layout:
  fixes cv :: tk_canvas
  assumes wd: "1 < winfo_width cv"
    and pos: "\<forall>img \<in> set (filtered_images g). 0 < known_ratio env g (path img)"
    and d: "distinct (map path (filtered_images g))"
    and cw: "column_width cv g < 2 ^ 53"
    and rng: "\<forall>img \<in> set (filtered_images g).
        of_int (column_width cv g) / known_ratio env g (path img) < 2 ^ 1023"
  shows "\<exists>g'. calculate_layout cv env g = Inr g'
     \<and> heights_after cv env g 0 = replicate (nat (layout_cols g)) (gap g)
     \<and> (\<forall>n < length (filtered_images g).
           column_of cv env g n < length (heights_after cv env g n)
         \<and> heights_after cv env g n ! column_of cv env g n = Min (set (heights_after cv env g n))
         \<and> (\<exists>q. round_double (of_int (column_width cv g)
                                 / known_ratio env g (path (filtered_images g ! n))) = Some q
              \<and> map_of (image_positions g') (path (filtered_images g ! n)) =
                  Some (gap g + int (column_of cv env g n) * (column_width cv g + gap g),
                        heights_after cv env g n ! column_of cv env g n,
                        column_width cv g,
                        \<lfloor>q\<rfloor>)
              \<and> heights_after cv env g (Suc n) =
                  (heights_after cv env g n)[column_of cv env g n :=
                     heights_after cv env g n ! column_of cv env g n + \<lfloor>q\<rfloor> + gap g]))
     \<and> scrollregion g' = Some (0, 0, winfo_width cv,
           Max (set (heights_after cv env g (length (filtered_images g)))) + gap g)
     \<and> (length (filtered_images g) = 12 \<and> num_columns g = 4 \<and> gap g = 4
          \<and> (\<forall>img \<in> set (filtered_images g). known_ratio env g (path img) = 1) \<longrightarrow>
            map (column_of cv env g) [0..<12] = [0, 1, 2, 3, 0, 1, 2, 3, 0, 1, 2, 3]
          \<and> heights_after cv env g 12 = replicate 4 (3 * column_width cv g + 4 * gap g))"
proof -
  let ?imgs = "filtered_images g"
  let ?w = "column_width cv g"
  note ok = divisions_ok[OF pos cw rng]
  have nz: "\<forall>img \<in> set ?imgs. \<exists>h. py_int_div ?w (aspect_of env g (path img)) = Inr h"
    using ok by blast
  from layout_final[OF wd nz d]
  obtain g' where c: "calculate_layout cv env g = Inr g'"
    and sr: "scrollregion g' = Some (0, 0, winfo_width cv,
           Max (set (heights_after cv env g (length ?imgs))) + gap g)"
    and ps: "\<And>n h. n < length ?imgs \<Longrightarrow>
           py_int_div ?w (aspect_of env g (path (?imgs ! n))) = Inr h \<Longrightarrow>
           map_of (image_positions g') (path (?imgs ! n)) =
             Some (gap g + int (column_of cv env g n) * (?w + gap g),
                   heights_after cv env g n ! column_of cv env g n, ?w, h)"
    by blast
  have ne: "heights_after cv env g n \<noteq> []" for n
  proof -
    from layout_prefix[OF nz, of n]
    have "length (heights_after cv env g n) = nat (layout_cols g)" by blast
    then show ?thesis using layout_cols_pos[of g] by auto
  qed
  have per: "column_of cv env g n < length (heights_after cv env g n)
         \<and> heights_after cv env g n ! column_of cv env g n = Min (set (heights_after cv env g n))
         \<and> (\<exists>q. round_double (of_int ?w / known_ratio env g (path (?imgs ! n))) = Some q
              \<and> map_of (image_positions g') (path (?imgs ! n)) =
                  Some (gap g + int (column_of cv env g n) * (?w + gap g),
                        heights_after cv env g n ! column_of cv env g n, ?w, \<lfloor>q\<rfloor>)
              \<and> heights_after cv env g (Suc n) =
                  (heights_after cv env g n)[column_of cv env g n :=
                     heights_after cv env g n ! column_of cv env g n + \<lfloor>q\<rfloor> + gap g])"
    if n: "n < length ?imgs" for n
  proof -
    from n have "?imgs ! n \<in> set ?imgs" by simp
    from ok[OF this] obtain q
      where q: "round_double (of_int ?w / known_ratio env g (path (?imgs ! n))) = Some q"
        and hd: "py_int_div ?w (aspect_of env g (path (?imgs ! n))) = Inr \<lfloor>q\<rfloor>"
      by blast
    from first_index_Min[OF ne[of n]]
    have m: "column_of cv env g n < length (heights_after cv env g n)"
      "heights_after cv env g n ! column_of cv env g n = Min (set (heights_after cv env g n))"
      by (simp_all add: column_of_def)
    from m q ps[OF n hd] layout_step(1)[OF nz n hd] show ?thesis by blast
  qed
  have sc: "map (column_of cv env g) [0..<12] = [0, 1, 2, 3, 0, 1, 2, 3, 0, 1, 2, 3]
          \<and> heights_after cv env g 12 = replicate 4 (3 * ?w + 4 * gap g)"
    if "length ?imgs = 12 \<and> num_columns g = 4 \<and> gap g = 4
          \<and> (\<forall>img \<in> set ?imgs. known_ratio env g (path img) = 1)"
    using that scenario_heights[of g env cv] layout_cols_twelve[of g] cw
    by (simp add: aspect_of_known_ratio)
  have h0: "heights_after cv env g 0 = replicate (nat (layout_cols g)) (gap g)"
    by (rule heights_after_0)
  have al: "\<forall>n < length ?imgs.
           column_of cv env g n < length (heights_after cv env g n)
         \<and> heights_after cv env g n ! column_of cv env g n = Min (set (heights_after cv env g n))
         \<and> (\<exists>q. round_double (of_int ?w / known_ratio env g (path (?imgs ! n))) = Some q
              \<and> map_of (image_positions g') (path (?imgs ! n)) =
                  Some (gap g + int (column_of cv env g n) * (?w + gap g),
                        heights_after cv env g n ! column_of cv env g n, ?w, \<lfloor>q\<rfloor>)
              \<and> heights_after cv env g (Suc n) =
                  (heights_after cv env g n)[column_of cv env g n :=
                     heights_after cv env g n ! column_of cv env g n + \<lfloor>q\<rfloor> + gap g])"
    by (intro allI impI) (rule per)
  have scn: "length ?imgs = 12 \<and> num_columns g = 4 \<and> gap g = 4
          \<and> (\<forall>img \<in> set ?imgs. known_ratio env g (path img) = 1) \<longrightarrow>
            map (column_of cv env g) [0..<12] = [0, 1, 2, 3, 0, 1, 2, 3, 0, 1, 2, 3]
          \<and> heights_after cv env g 12 = replicate 4 (3 * ?w + 4 * gap g)"
    by (rule impI) (rule sc)
  show ?thesis
    by (rule exI[of _ g']) (insert c h0 al sr scn, (intro conjI; assumption))
qed

lemma photo_quotient:
  "round_double (261 / (5790342378047781 / 4503599627370496)) = Some (7142427534032895 / 35184372088832)"
  "\<lfloor>7142427534032895 / 35184372088832 :: rat\<rfloor> = 202"
  "(261 :: rat) / (5790342378047781 / 4503599627370496) < 2 ^ 1023"
  "(195 :: rat) < 2 ^ 1023"
  by code_simp+

theorem masonry_layout_witness:
  "(\<exists>g'. calculate_layout window squares_pil squares = Inr g'
     \<and> map_of (image_positions g') ''01.png'' = Some (4, 4, 195, 195)
     \<and> scrollregion g' = Some (0, 0, 800, 605)
     \<and> map (column_of window squares_pil squares) [0..<12] = [0, 1, 2, 3, 0, 1, 2, 3, 0, 1, 2, 3]
     \<and> heights_after window squares_pil squares 12 = [601, 601, 601, 601])
   \<and> known_ratio photo_pil photos ''p.png'' = 5790342378047781 / 4503599627370496
   \<and> (\<exists>g'. calculate_layout window photo_pil photos = Inr g'
        \<and> map_of (image_positions g') ''p.png'' = Some (4, 4, 261, 202)
        \<and> heights_after window photo_pil photos 1 = [210, 4, 4])"
proof -
  have a: "known_ratio squares_pil squares p = 1" for p
    by (simp add: known_ratio_def squares_pil_def squares_def init_gallery_def int_truediv_examples)
  have wd: "1 < winfo_width window" by (simp add: window_def)
  have w: "column_width window squares = 195"
    by (simp add: column_width_def layout_cols_def window_def squares_def init_gallery_def)
  have pos: "\<forall>img \<in> set (filtered_images squares). 0 < known_ratio squares_pil squares (path img)"
    by (simp add: a)
  have d: "distinct (map path (filtered_images squares))"
    by (simp add: squares_def mk_image_def init_gallery_def)
  have cw: "column_width window squares < 2 ^ 53" by (simp add: w)
  have rng: "\<forall>img \<in> set (filtered_images squares).
      of_int (column_width window squares) / known_ratio squares_pil squares (path img) < 2 ^ 1023"
    by (simp add: a w photo_quotient)
  have sc: "length (filtered_images squares) = 12 \<and> num_columns squares = 4 \<and> gap squares = 4
          \<and> (\<forall>img \<in> set (filtered_images squares). known_ratio squares_pil squares (path img) = 1)"
    by (simp add: a) (simp add: squares_def init_gallery_def)
  have p0: "path (filtered_images squares ! 0) = ''01.png''"
    by (simp add: squares_def mk_image_def init_gallery_def)
  have gp: "gap squares = 4" "layout_cols squares = 4" "winfo_width window = 800"
    by (simp_all add: layout_cols_def window_def squares_def init_gallery_def)
  have n0: "0 < length (filtered_images squares)" using sc by simp
  from masonry_layout[OF wd pos d cw rng]
  obtain g' where c: "calculate_layout window squares_pil squares = Inr g'"
    and h0: "heights_after window squares_pil squares 0 = replicate (nat (layout_cols squares)) (gap squares)"
    and al: "\<forall>n < length (filtered_images squares).
           column_of window squares_pil squares n < length (heights_after window squares_pil squares n)
         \<and> heights_after window squares_pil squares n ! column_of window squares_pil squares n
             = Min (set (heights_after window squares_pil squares n))
         \<and> (\<exists>q. round_double (of_int (column_width window squares)
                                 / known_ratio squares_pil squares (path (filtered_images squares ! n))) = Some q
              \<and> map_of (image_positions g') (path (filtered_images squares ! n)) =
                  Some (gap squares + int (column_of window squares_pil squares n) * (column_width window squares + gap squares),
                        heights_after window squares_pil squares n ! column_of window squares_pil squares n,
                        column_width window squares,
                        \<lfloor>q\<rfloor>)
              \<and> heights_after window squares_pil squares (Suc n) =
                  (heights_after window squares_pil squares n)[column_of window squares_pil squares n :=
                     heights_after window squares_pil squares n ! column_of window squares_pil squares n + \<lfloor>q\<rfloor> + gap squares])"
    and sr: "scrollregion g' = Some (0, 0, winfo_width window,
           Max (set (heights_after window squares_pil squares (length (filtered_images squares)))) + gap squares)"
    and scn: "length (filtered_images squares) = 12 \<and> num_columns squares = 4 \<and> gap squares = 4
          \<and> (\<forall>img \<in> set (filtered_images squares). known_ratio squares_pil squares (path img) = 1) \<longrightarrow>
            map (column_of window squares_pil squares) [0..<12] = [0, 1, 2, 3, 0, 1, 2, 3, 0, 1, 2, 3]
          \<and> heights_after window squares_pil squares 12 = replicate 4 (3 * column_width window squares + 4 * gap squares)"
    by (elim exE conjE)
  from scn sc
  have cs: "map (column_of window squares_pil squares) [0..<12] = [0, 1, 2, 3, 0, 1, 2, 3, 0, 1, 2, 3]"
    and hs: "heights_after window squares_pil squares 12 = replicate 4 (3 * column_width window squares + 4 * gap squares)"
    by blast+
  from al n0
  have p: "\<exists>q. round_double (of_int (column_width window squares)
                                 / known_ratio squares_pil squares (path (filtered_images squares ! 0))) = Some q
              \<and> map_of (image_positions g') (path (filtered_images squares ! 0)) =
             Some (gap squares + int (column_of window squares_pil squares 0) * (column_width window squares + gap squares),
                   heights_after window squares_pil squares 0 ! column_of window squares_pil squares 0,
                   column_width window squares, \<lfloor>q\<rfloor>)"
    by blast
  have rd: "round_double (195 / 1) = Some 195" by code_simp
  have c0: "column_of window squares_pil squares 0 = 0"
    using cs by (simp add: upt_rec)
  have h12: "heights_after window squares_pil squares 12 = [601, 601, 601, 601]"
    using hs by (simp add: w gp eval_nat_numeral)
  have p1: "map_of (image_positions g') ''01.png'' = Some (4, 4, 195, 195)"
    using p rd by (simp add: p0 c0 h0 gp w a eval_nat_numeral)
  have s1: "scrollregion g' = Some (0, 0, 800, 605)"
    using sr sc by (simp add: h12 gp)
  have sq: "\<exists>g'. calculate_layout window squares_pil squares = Inr g'
     \<and> map_of (image_positions g') ''01.png'' = Some (4, 4, 195, 195)
     \<and> scrollregion g' = Some (0, 0, 800, 605)
     \<and> map (column_of window squares_pil squares) [0..<12] = [0, 1, 2, 3, 0, 1, 2, 3, 0, 1, 2, 3]
     \<and> heights_after window squares_pil squares 12 = [601, 601, 601, 601]"
    by (rule exI[of _ g']) (simp only: c p1 s1 cs h12 simp_thms)
  have k: "known_ratio photo_pil photos p = 5790342378047781 / 4503599627370496" if "p \<noteq> ''banner.png''" for p
    using that by (simp add: known_ratio_def photo_pil_def photos_def init_gallery_def int_truediv_examples)
  have f: "filtered_images photos = [mk_image ''p.png'']" "gap photos = 4" "layout_cols photos = 3"
    "column_width window photos = 261"
    by (simp_all add: photos_def init_gallery_def layout_cols_def column_width_def window_def)
  have pos': "\<forall>img \<in> set (filtered_images photos). 0 < known_ratio photo_pil photos (path img)"
    by (simp add: f mk_image_def k)
  have d': "distinct (map path (filtered_images photos))" by (simp add: f)
  have cw': "column_width window photos < 2 ^ 53" by (simp add: f)
  have rng': "\<forall>img \<in> set (filtered_images photos).
      of_int (column_width window photos) / known_ratio photo_pil photos (path img) < 2 ^ 1023"
    by (simp add: f mk_image_def k photo_quotient)
  have n0': "0 < length (filtered_images photos)" by (simp add: f)
  from masonry_layout[OF wd pos' d' cw' rng']
  obtain g2 where c2: "calculate_layout window photo_pil photos = Inr g2"
    and h0': "heights_after window photo_pil photos 0 = replicate (nat (layout_cols photos)) (gap photos)"
    and al': "\<forall>n < length (filtered_images photos).
           column_of window photo_pil photos n < length (heights_after window photo_pil photos n)
         \<and> heights_after window photo_pil photos n ! column_of window photo_pil photos n
             = Min (set (heights_after window photo_pil photos n))
         \<and> (\<exists>q. round_double (of_int (column_width window photos)
                                 / known_ratio photo_pil photos (path (filtered_images photos ! n))) = Some q
              \<and> map_of (image_positions g2) (path (filtered_images photos ! n)) =
                  Some (gap photos + int (column_of window photo_pil photos n) * (column_width window photos + gap photos),
                        heights_after window photo_pil photos n ! column_of window photo_pil photos n,
                        column_width window photos,
                        \<lfloor>q\<rfloor>)
              \<and> heights_after window photo_pil photos (Suc n) =
                  (heights_after window photo_pil photos n)[column_of window photo_pil photos n :=
                     heights_after window photo_pil photos n ! column_of window photo_pil photos n + \<lfloor>q\<rfloor> + gap photos])"
    by (elim exE conjE)
  from al' n0'
  have p': "\<exists>q. round_double (of_int (column_width window photos)
                                 / known_ratio photo_pil photos (path (filtered_images photos ! 0))) = Some q
              \<and> map_of (image_positions g2) (path (filtered_images photos ! 0)) =
                  Some (gap photos + int (column_of window photo_pil photos 0) * (column_width window photos + gap photos),
                        heights_after window photo_pil photos 0 ! column_of window photo_pil photos 0,
                        column_width window photos, \<lfloor>q\<rfloor>)
              \<and> heights_after window photo_pil photos (Suc 0) =
                  (heights_after window photo_pil photos 0)[column_of window photo_pil photos 0 :=
                     heights_after window photo_pil photos 0 ! column_of window photo_pil photos 0 + \<lfloor>q\<rfloor> + gap photos]"
    by blast
  have h0'': "heights_after window photo_pil photos 0 = [4, 4, 4]"
    using h0' by (simp add: f eval_nat_numeral)
  have c0': "column_of window photo_pil photos 0 = 0"
    by (simp add: column_of_def h0'' first_index_simps)
  from p' obtain q
    where q1: "round_double (of_int (column_width window photos)
                 / known_ratio photo_pil photos (path (filtered_images photos ! 0))) = Some q"
      and q2: "map_of (image_positions g2) (path (filtered_images photos ! 0)) =
                  Some (gap photos + int (column_of window photo_pil photos 0) * (column_width window photos + gap photos),
                        heights_after window photo_pil photos 0 ! column_of window photo_pil photos 0,
                        column_width window photos, \<lfloor>q\<rfloor>)"
      and q3: "heights_after window photo_pil photos (Suc 0) =
                  (heights_after window photo_pil photos 0)[column_of window photo_pil photos 0 :=
                     heights_after window photo_pil photos 0 ! column_of window photo_pil photos 0 + \<lfloor>q\<rfloor> + gap photos]"
    by blast
  have pth: "path (filtered_images photos ! 0) = ''p.png''" by (simp add: f mk_image_def)
  have kp: "known_ratio photo_pil photos ''p.png'' = 5790342378047781 / 4503599627370496"
    by (rule k) simp
  from q1 have "round_double (261 / (5790342378047781 / 4503599627370496)) = Some q"
    by (simp only: pth kp f(4) of_int_numeral)
  then have "Some (7142427534032895 / 35184372088832) = Some q"
    by (simp only: photo_quotient(1))
  then have "q = 7142427534032895 / 35184372088832" by (simp only: option.inject)
  then have fl: "\<lfloor>q\<rfloor> = 202" by (simp only: photo_quotient(2))
  from q2 q3 have ph: "map_of (image_positions g2) ''p.png'' = Some (4, 4, 261, 202)
      \<and> heights_after window photo_pil photos 1 = [210, 4, 4]"
    by (simp add: f mk_image_def fl h0'' c0')
  have "\<exists>g'. calculate_layout window photo_pil photos = Inr g'
        \<and> map_of (image_positions g') ''p.png'' = Some (4, 4, 261, 202)
        \<and> heights_after window photo_pil photos 1 = [210, 4, 4]"
    using c2 ph by blast
  with sq k[of "''p.png''"] show ?thesis by simp
qed

subsection \<open>Column count\<close>

lemma list_all_update:
  "P (k, v) \<Longrightarrow> list_all P ps \<Longrightarrow> list_all P (AList.update k v ps)"
  by (induction ps) auto

lemma place_image_unfold:
  assumes "place_image env w img (hs, g) = Inr (hs', g')"
  shows "\<exists>h. hs' = hs[first_index hs (Min (set hs)) := hs ! first_index hs (Min (set hs)) + h + gap g]
      \<and> image_positions g' =
          AList.update (path img)
            (gap g + int (first_index hs (Min (set hs))) * (w + gap g),
             hs ! first_index hs (Min (set hs)), w, h) (image_positions g)
      \<and> gap g' = gap g"
proof -
  obtain a g1 where r: "get_aspect_ratio_fast env g (path img) = (a, g1)"
    by (cases "get_aspect_ratio_fast env g (path img)")
  have f: "gap g1 = gap g" "image_positions g1 = image_positions g"
    using resolver_keeps_fields[of env g "path img"] by (simp_all add: r)
  from assms show ?thesis
    by (auto simp: place_image_def r f Let_def split: sum.splits)
qed

lemma layout_loop_grid:
  "layout_loop env w imgs (hs, g) = Inr (hs', g') \<Longrightarrow> hs \<noteq> [] \<Longrightarrow>
   list_all (\<lambda>(p, x, y, w', h).
       w' = w \<and> x \<in> set (map (\<lambda>c. gap g + int c * (w + gap g)) [0..<length hs])) (image_positions g) \<Longrightarrow>
   list_all (\<lambda>(p, x, y, w', h).
       w' = w \<and> x \<in> set (map (\<lambda>c. gap g + int c * (w + gap g)) [0..<length hs])) (image_positions g')
   \<and> fst ` set (image_positions g') = fst ` set (image_positions g) \<union> path ` set imgs"
proof (induction imgs arbitrary: hs g)
  case Nil
  then show ?case by simp
next
  case (Cons img imgs)
  from Cons.prems(1) obtain hs1 g1 where p: "place_image env w img (hs, g) = Inr (hs1, g1)"
    and l: "layout_loop env w imgs (hs1, g1) = Inr (hs', g')"
    by (auto split: sum.splits)
  define c where "c = first_index hs (Min (set hs))"
  from place_image_unfold[OF p] obtain h
    where hs1: "hs1 = hs[c := hs ! c + h + gap g]"
      and ps: "image_positions g1 =
          AList.update (path img) (gap g + int c * (w + gap g), hs ! c, w, h) (image_positions g)"
      and gp: "gap g1 = gap g"
    unfolding c_def by blast
  have c: "c < length hs" unfolding c_def using first_index_Min(1)[OF Cons.prems(2)] .
  have len: "length hs1 = length hs" "hs1 \<noteq> []" using Cons.prems(2) by (simp_all add: hs1)
  have "list_all (\<lambda>(p, x, y, w', h).
       w' = w \<and> x \<in> set (map (\<lambda>c. gap g + int c * (w + gap g)) [0..<length hs])) (image_positions g1)"
    unfolding ps using c Cons.prems(3) by (intro list_all_update) auto
  then have "list_all (\<lambda>(p, x, y, w', h).
       w' = w \<and> x \<in> set (map (\<lambda>c. gap g1 + int c * (w + gap g1)) [0..<length hs1])) (image_positions g1)"
    by (simp only: gp len)
  from Cons.IH[OF l len(2) this]
  have "list_all (\<lambda>(p, x, y, w', h).
       w' = w \<and> x \<in> set (map (\<lambda>c. gap g + int c * (w + gap g)) [0..<length hs])) (image_positions g')"
    and "fst ` set (image_positions g') = fst ` set (image_positions g1) \<union> path ` set imgs"
    by (simp_all only: gp len)
  moreover have "fst ` set (image_positions g1) = insert (path img) (fst ` set (image_positions g))"
    by (simp add: ps dom_update)
  ultimately show ?case by auto
qed

lemma layout_grid:
  fixes cv :: tk_canvas
  assumes wd: "1 < winfo_width cv" and c: "calculate_layout cv env g = Inr g'"
  shows "list_all (in_column_grid (winfo_width cv) (gap g) (layout_cols g)) (image_positions g')"
    and "fst ` set (image_positions g') = path ` set (filtered_images g)"
proof -
  from c wd obtain hs' g1
    where l: "layout_loop env (column_width cv g) (filtered_images g)
                (initial_heights g, g\<lparr>image_positions := []\<rparr>) = Inr (hs', g1)"
      and g': "image_positions g' = image_positions g1"
    by (auto simp: calculate_layout_def Let_def split: sum.splits)
  have ne: "initial_heights g \<noteq> []"
    using layout_cols_pos[of g] by (auto simp: initial_heights_def)
  have len: "length (initial_heights g) = nat (layout_cols g)" by (simp add: initial_heights_def)
  from layout_loop_grid[OF l ne]
  have "list_all (\<lambda>(p, x, y, w', h). w' = column_width cv g
          \<and> x \<in> set (map (\<lambda>c. gap g + int c * (column_width cv g + gap g)) [0..<nat (layout_cols g)]))
          (image_positions g1)"
    and k: "fst ` set (image_positions g1) = path ` set (filtered_images g)"
    by (simp_all add: len)
  moreover have "in_column_grid (winfo_width cv) (gap g) (layout_cols g) =
      (\<lambda>(p, x, y, w', h). w' = column_width cv g
          \<and> x \<in> set (map (\<lambda>c. gap g + int c * (column_width cv g + gap g)) [0..<nat (layout_cols g)]))"
    by (auto simp: in_column_grid_def column_width_def spec_column_width_def fun_eq_iff)
  ultimately show "list_all (in_column_grid (winfo_width cv) (gap g) (layout_cols g)) (image_positions g')"
    and "fst ` set (image_positions g') = path ` set (filtered_images g)"
    by (simp_all add: g')
qed

lemma own_columns:
  fixes cv :: tk_canvas
  assumes nz: "\<forall>img \<in> set (filtered_images g).
      \<exists>h. 0 \<le> h \<and> py_int_div (column_width cv g) (aspect_of env g (path img)) = Inr h"
    and gp: "0 < gap g"
  shows "length (filtered_images g) = 2 \<and> layout_cols g = 2 \<longrightarrow>
           column_of cv env g 0 = 0 \<and> column_of cv env g 1 = 1"
    and "length (filtered_images g) = 3 \<and> layout_cols g = 3 \<longrightarrow>
           column_of cv env g 0 = 0 \<and> column_of cv env g 1 = 1 \<and> column_of cv env g 2 = 2"
proof -
  have nz': "\<forall>img \<in> set (filtered_images g).
      \<exists>h. py_int_div (column_width cv g) (aspect_of env g (path img)) = Inr h"
    using nz by blast
  have st: "\<exists>h. 0 \<le> h \<and> heights_after cv env g (Suc n) =
      (heights_after cv env g n)[column_of cv env g n :=
         heights_after cv env g n ! column_of cv env g n + h + gap g]"
    if n: "n < length (filtered_images g)" for n
  proof -
    from n nz obtain h where h: "0 \<le> h"
      and hd: "py_int_div (column_width cv g) (aspect_of env g (path (filtered_images g ! n))) = Inr h"
      by (meson nth_mem)
    from layout_step(1)[OF nz' n hd] h show ?thesis by blast
  qed
  note col = column_of_def first_index_simps
  show "length (filtered_images g) = 2 \<and> layout_cols g = 2 \<longrightarrow>
           column_of cv env g 0 = 0 \<and> column_of cv env g 1 = 1"
  proof
    assume a: "length (filtered_images g) = 2 \<and> layout_cols g = 2"
    have h0: "heights_after cv env g 0 = [gap g, gap g]"
      using a by (simp add: heights_after_0 eval_nat_numeral)
    have c0: "column_of cv env g 0 = 0" by (simp add: col h0)
    from st[of 0] a obtain h where h: "0 \<le> h"
      and h1: "heights_after cv env g (Suc 0) = [gap g + h + gap g, gap g]"
      by (auto simp: h0 c0)
    have c1: "column_of cv env g (Suc 0) = Suc 0" using h gp by (simp add: col h1)
    from c0 c1 show "column_of cv env g 0 = 0 \<and> column_of cv env g 1 = 1" by simp
  qed
  show "length (filtered_images g) = 3 \<and> layout_cols g = 3 \<longrightarrow>
           column_of cv env g 0 = 0 \<and> column_of cv env g 1 = 1 \<and> column_of cv env g 2 = 2"
  proof
    assume a: "length (filtered_images g) = 3 \<and> layout_cols g = 3"
    have h0: "heights_after cv env g 0 = [gap g, gap g, gap g]"
      using a by (simp add: heights_after_0 eval_nat_numeral)
    have c0: "column_of cv env g 0 = 0" by (simp add: col h0)
    from st[of 0] a obtain h where h: "0 \<le> h"
      and h1: "heights_after cv env g (Suc 0) = [gap g + h + gap g, gap g, gap g]"
      by (auto simp: h0 c0)
    have c1: "column_of cv env g (Suc 0) = Suc 0" using h gp by (simp add: col h1)
    from st[of "Suc 0"] a obtain h' where h': "0 \<le> h'"
      and h2: "heights_after cv env g 2 = [gap g + h + gap g, gap g + h' + gap g, gap g]"
      by (auto simp: h1 c1 numeral_2_eq_2)
    have c2: "column_of cv env g 2 = 2" using h h' gp by (simp add: col h2)
    from c0 c1 c2 show "column_of cv env g 0 = 0 \<and> column_of cv env g 1 = 1 \<and> column_of cv env g 2 = 2"
      by simp
  qed
qed

text \<open>
  C4.  In the \<open>selected\<close> view on a canvas wider than one pixel, let \<open>k\<close> be 2 for a filtered
  list of exactly 2 items, 3 for one of exactly 3 items, and the configured \<open>num_columns\<close>
  otherwise (a positive number: the radio buttons offer 3 to 6).  Then \<open>calculate_layout\<close>
  works with \<open>k\<close> columns whatever \<open>num_columns\<close> holds: it keeps \<open>k\<close> column heights, and in
  every layout it returns the position map has an entry for exactly the listed paths, each
  of the width of one of \<open>k\<close> columns across the canvas and at the x of one of these \<open>k\<close>
  columns.  It does return a layout when the known ratios are positive, the column width is
  exact as a float and the quotients \<open>column_width / ratio\<close> are in the range of a float;
  and then, with a positive gap, 2 items go to columns 0 and 1, and 3 items to columns 0, 1
  and 2.
\<close>

theorem selected_view_columns:
  fixes cv :: tk_canvas
  assumes sel: "view_mode g = ''selected''" and wd: "1 < winfo_width cv"
    and k: "k = (if length (filtered_images g) = 2 then 2
                 else if length (filtered_images g) = 3 then 3 else num_columns g)"
    and cnt: "length (filtered_images g) = 2 \<or> length (filtered_images g) = 3 \<or> 0 < num_columns g"
  shows "layout_cols g = k \<and> int (length (initial_heights g)) = k
    \<and> column_width cv g = spec_column_width (winfo_width cv) (gap g) k
    \<and> (\<forall>g'. calculate_layout cv env g = Inr g' \<longrightarrow>
          list_all (in_column_grid (winfo_width cv) (gap g) k) (image_positions g')
        \<and> fst ` set (image_positions g') = path ` set (filtered_images g))
    \<and> ((\<forall>img \<in> set (filtered_images g). 0 < known_ratio env g (path img)
           \<and> of_int (column_width cv g) / known_ratio env g (path img) < 2 ^ 1023)
        \<and> column_width cv g < 2 ^ 53 \<longrightarrow>
          (\<exists>g'. calculate_layout cv env g = Inr g')
        \<and> (0 < gap g \<and> length (filtered_images g) = 2 \<longrightarrow>
              column_of cv env g 0 = 0 \<and> column_of cv env g 1 = 1)
        \<and> (0 < gap g \<and> length (filtered_images g) = 3 \<longrightarrow>
              column_of cv env g 0 = 0 \<and> column_of cv env g 1 = 1 \<and> column_of cv env g 2 = 2))"
proof -
  have lc: "layout_cols g = k"
    using sel cnt by (auto simp: k layout_cols_def Let_def)
  have kp: "0 < k" using lc layout_cols_pos[of g] by simp
  have ih: "int (length (initial_heights g)) = k"
    using kp by (simp add: initial_heights_def lc)
  have w: "column_width cv g = spec_column_width (winfo_width cv) (gap g) k"
    by (simp add: column_width_def spec_column_width_def lc)
  have grid: "list_all (in_column_grid (winfo_width cv) (gap g) k) (image_positions g')
        \<and> fst ` set (image_positions g') = path ` set (filtered_images g)"
    if "calculate_layout cv env g = Inr g'" for g'
    using layout_grid[OF wd that] by (simp add: lc)
  have ret: "(\<exists>g'. calculate_layout cv env g = Inr g')
        \<and> (0 < gap g \<and> length (filtered_images g) = 2 \<longrightarrow>
              column_of cv env g 0 = 0 \<and> column_of cv env g 1 = 1)
        \<and> (0 < gap g \<and> length (filtered_images g) = 3 \<longrightarrow>
              column_of cv env g 0 = 0 \<and> column_of cv env g 1 = 1 \<and> column_of cv env g 2 = 2)"
    if h: "(\<forall>img \<in> set (filtered_images g). 0 < known_ratio env g (path img)
           \<and> of_int (column_width cv g) / known_ratio env g (path img) < 2 ^ 1023)
        \<and> column_width cv g < 2 ^ 53"
  proof -
    from h have pos: "\<forall>img \<in> set (filtered_images g). 0 < known_ratio env g (path img)"
      and rng: "\<forall>img \<in> set (filtered_images g).
          of_int (column_width cv g) / known_ratio env g (path img) < 2 ^ 1023"
      and cw: "column_width cv g < 2 ^ 53"
      by blast+
    note ok = divisions_ok[OF pos cw rng]
    have nz0: "\<forall>img \<in> set (filtered_images g).
        \<exists>h. 0 \<le> h \<and> py_int_div (column_width cv g) (aspect_of env g (path img)) = Inr h"
    proof
      fix img assume "img \<in> set (filtered_images g)"
      from ok[OF this] obtain q :: rat where "0 \<le> q"
        and "py_int_div (column_width cv g) (aspect_of env g (path img)) = Inr \<lfloor>q\<rfloor>"
        by blast
      then have "0 \<le> \<lfloor>q\<rfloor> \<and> py_int_div (column_width cv g) (aspect_of env g (path img)) = Inr \<lfloor>q\<rfloor>"
        by simp
      then show "\<exists>h. 0 \<le> h \<and> py_int_div (column_width cv g) (aspect_of env g (path img)) = Inr h" ..
    qed
    then have nz: "\<forall>img \<in> set (filtered_images g).
        \<exists>h. py_int_div (column_width cv g) (aspect_of env g (path img)) = Inr h"
      by blast
    from layout_returns[OF wd nz] have "\<exists>g'. calculate_layout cv env g = Inr g'" by blast
    moreover have "0 < gap g \<and> length (filtered_images g) = 2 \<longrightarrow>
              column_of cv env g 0 = 0 \<and> column_of cv env g 1 = 1"
      using own_columns(1)[OF nz0] lc k by simp
    moreover have "0 < gap g \<and> length (filtered_images g) = 3 \<longrightarrow>
              column_of cv env g 0 = 0 \<and> column_of cv env g 1 = 1 \<and> column_of cv env g 2 = 2"
      using own_columns(2)[OF nz0] lc k by simp
    ultimately show ?thesis by blast
  qed
  have grid': "\<forall>g'. calculate_layout cv env g = Inr g' \<longrightarrow>
          list_all (in_column_grid (winfo_width cv) (gap g) k) (image_positions g')
        \<and> fst ` set (image_positions g') = path ` set (filtered_images g)"
    by (intro allI impI) (rule grid)
  have ret': "(\<forall>img \<in> set (filtered_images g). 0 < known_ratio env g (path img)
           \<and> of_int (column_width cv g) / known_ratio env g (path img) < 2 ^ 1023)
        \<and> column_width cv g < 2 ^ 53 \<longrightarrow>
          (\<exists>g'. calculate_layout cv env g = Inr g')
        \<and> (0 < gap g \<and> length (filtered_images g) = 2 \<longrightarrow>
              column_of cv env g 0 = 0 \<and> column_of cv env g 1 = 1)
        \<and> (0 < gap g \<and> length (filtered_images g) = 3 \<longrightarrow>
              column_of cv env g 0 = 0 \<and> column_of cv env g 1 = 1 \<and> column_of cv env g 2 = 2)"
    by (rule impI) (rule ret)
  show ?thesis
    by (insert lc ih w grid' ret', (intro conjI; assumption))
qed

lemma selected_quotients:
  "py_int_div 394 2 = Inr 197"
  "py_int_div 394 1 = Inr 394"
  "(394 :: rat) / 2 < 2 ^ 1023"
  "(394 :: rat) < 2 ^ 1023"
  by code_simp+

lemma two_selected_layout:
  "calculate_layout window example_pil two_selected =
     Inr (two_selected\<lparr>
       aspect_cache := [''a.png'' \<mapsto> 2],
       aspect_decodes := [''a.png'', ''b.png''],
       image_positions := [(''a.png'', (4, 4, 394, 197)), (''b.png'', (402, 4, 394, 394))],
       scrollregion := Some (0, 0, 800, 406)\<rparr>)"
  by (simp add: calculate_layout_def window_def two_selected_def example_pil_def init_gallery_def
      column_width_def initial_heights_def layout_cols_def get_aspect_ratio_fast_def
      place_image_def first_index_simps int_truediv_examples selected_quotients Let_def eval_nat_numeral)

theorem selected_view_columns_witness:
  "view_mode two_selected = ''selected'' \<and> 1 < winfo_width window
   \<and> length (filtered_images two_selected) = 2 \<and> num_columns two_selected = 6
   \<and> layout_cols two_selected = 2
   \<and> column_width window two_selected = 394
   \<and> (\<exists>g'. calculate_layout window example_pil two_selected = Inr g'
        \<and> image_positions g' = [(''a.png'', (4, 4, 394, 197)), (''b.png'', (402, 4, 394, 394))]
        \<and> list_all (in_column_grid 800 4 2) (image_positions g'))
   \<and> column_of window example_pil two_selected 0 = 0 \<and> column_of window example_pil two_selected 1 = 1
   \<and> view_mode three_selected = ''selected'' \<and> length (filtered_images three_selected) = 3
   \<and> num_columns three_selected = 6 \<and> layout_cols three_selected = 3
   \<and> column_width window three_selected = 261
   \<and> view_mode five_selected = ''selected'' \<and> length (filtered_images five_selected) = 5
   \<and> num_columns five_selected = 6 \<and> layout_cols five_selected = 6
   \<and> column_width window five_selected = 128"
proof -
  have h: "view_mode two_selected = ''selected''" "view_mode three_selected = ''selected''"
    "view_mode five_selected = ''selected''" "1 < winfo_width window"
    by (simp_all add: two_selected_def three_selected_def five_selected_def init_gallery_def window_def)
  have l: "length (filtered_images two_selected) = 2" "num_columns two_selected = 6"
    "length (filtered_images three_selected) = 3" "num_columns three_selected = 6"
    "length (filtered_images five_selected) = 5" "num_columns five_selected = 6"
    by (simp_all add: two_selected_def three_selected_def five_selected_def init_gallery_def)
  have v: "winfo_width window = 800" "gap two_selected = 4" "gap three_selected = 4" "gap five_selected = 4"
    by (simp_all add: two_selected_def three_selected_def five_selected_def init_gallery_def window_def)
  have sw: "spec_column_width 800 4 2 = 394" "spec_column_width 800 4 3 = 261" "spec_column_width 800 4 6 = 128"
    by (simp_all add: spec_column_width_def)
  have k2: "(2::int) = (if length (filtered_images two_selected) = 2 then 2
                 else if length (filtered_images two_selected) = 3 then 3 else num_columns two_selected)"
    and k3: "(3::int) = (if length (filtered_images three_selected) = 2 then 2
                 else if length (filtered_images three_selected) = 3 then 3 else num_columns three_selected)"
    and k5: "(6::int) = (if length (filtered_images five_selected) = 2 then 2
                 else if length (filtered_images five_selected) = 3 then 3 else num_columns five_selected)"
    by (simp_all add: l)
  have c2: "length (filtered_images two_selected) = 2 \<or> length (filtered_images two_selected) = 3
      \<or> 0 < num_columns two_selected"
    and c3: "length (filtered_images three_selected) = 2 \<or> length (filtered_images three_selected) = 3
      \<or> 0 < num_columns three_selected"
    and c5: "length (filtered_images five_selected) = 2 \<or> length (filtered_images five_selected) = 3
      \<or> 0 < num_columns five_selected"
    by (simp_all add: l)
  note t2 = selected_view_columns[OF h(1) h(4) k2 c2, of example_pil]
  note t3 = selected_view_columns[OF h(2) h(4) k3 c3, of example_pil]
  note t5 = selected_view_columns[OF h(3) h(4) k5 c5, of example_pil]
  from t2 have a2: "layout_cols two_selected = 2" "column_width window two_selected = 394"
    by (simp_all add: v sw)
  from t3 have a3: "layout_cols three_selected = 3" "column_width window three_selected = 261"
    by (simp_all add: v sw)
  from t5 have a5: "layout_cols five_selected = 6" "column_width window five_selected = 128"
    by (simp_all add: v sw)
  have kr: "known_ratio example_pil two_selected ''a.png'' = 2"
    "known_ratio example_pil two_selected ''b.png'' = 1"
    by (simp_all add: known_ratio_def example_pil_def two_selected_def init_gallery_def int_truediv_examples)
  have fi: "filtered_images two_selected =
      [\<lparr>path = ''a.png'', name = ''a.png'', selected = True\<rparr>,
       \<lparr>path = ''b.png'', name = ''b.png'', selected = True\<rparr>]"
    by (simp add: two_selected_def init_gallery_def)
  have rg: "(\<forall>img \<in> set (filtered_images two_selected). 0 < known_ratio example_pil two_selected (path img)
           \<and> of_int (column_width window two_selected) / known_ratio example_pil two_selected (path img) < 2 ^ 1023)
        \<and> column_width window two_selected < 2 ^ 53"
    by (simp add: fi kr a2 selected_quotients)
  have gp: "0 < gap two_selected \<and> length (filtered_images two_selected) = 2"
    by (simp add: v l)
  from t2 rg gp have oc: "column_of window example_pil two_selected 0 = 0
      \<and> column_of window example_pil two_selected 1 = 1"
    by blast
  from t2 two_selected_layout
  have "list_all (in_column_grid (winfo_width window) (gap two_selected) 2)
      (image_positions (two_selected\<lparr>
       aspect_cache := [''a.png'' \<mapsto> 2],
       aspect_decodes := [''a.png'', ''b.png''],
       image_positions := [(''a.png'', (4, 4, 394, 197)), (''b.png'', (402, 4, 394, 394))],
       scrollregion := Some (0, 0, 800, 406)\<rparr>))"
    by blast
  then have "list_all (in_column_grid 800 4 2)
      [(''a.png'', (4, 4, 394, 197)), (''b.png'', (402, 4, 394, 394))]"
    by (simp add: v)
  with two_selected_layout
  have ex: "\<exists>g'. calculate_layout window example_pil two_selected = Inr g'
        \<and> image_positions g' = [(''a.png'', (4, 4, 394, 197)), (''b.png'', (402, 4, 394, 394))]
        \<and> list_all (in_column_grid 800 4 2) (image_positions g')"
    by simp
  from h l a2 a3 a5 ex oc show ?thesis by blast
qed

subsection \<open>Determinism of the layout\<close>

lemma resolver_cache_grows:
  "aspect_cache (snd (get_aspect_ratio_fast env g q)) p = None \<Longrightarrow> aspect_cache g p = None"
  by (auto simp: get_aspect_ratio_fast_def Let_def split: option.splits if_splits sum.splits)

lemma place_image_cache_grows:
  "place_image env w img (hs, g) = Inr (hs', g') \<Longrightarrow> aspect_cache g' p = None \<Longrightarrow> aspect_cache g p = None"
  using resolver_cache_grows[of env g "path img" p]
  by (auto simp: place_image_def Let_def split: prod.splits if_splits sum.splits)

lemma resolver_related:
  assumes "aspect_cache ga = aspect_cache gb"
    and "aspect_cache ga p = None \<longrightarrow> image_open env1 p = image_open env2 p"
  shows "fst (get_aspect_ratio_fast env1 ga p) = fst (get_aspect_ratio_fast env2 gb p)"
    and "aspect_cache (snd (get_aspect_ratio_fast env1 ga p)) = aspect_cache (snd (get_aspect_ratio_fast env2 gb p))"
  using assms by (auto simp: get_aspect_ratio_fast_def Let_def split: option.splits sum.splits)

lemma place_image_related:
  assumes s: "same_layout_state ga gb"
    and d: "aspect_cache ga (path img) = None \<longrightarrow> image_open env1 (path img) = image_open env2 (path img)"
  shows "(\<exists>e. place_image env1 w img (hs, ga) = Inl e \<and> place_image env2 w img (hs, gb) = Inl e)
       \<or> (\<exists>hs' ga' gb'. place_image env1 w img (hs, ga) = Inr (hs', ga')
              \<and> place_image env2 w img (hs, gb) = Inr (hs', gb') \<and> same_layout_state ga' gb')"
proof -
  obtain a1 g1 where r1: "get_aspect_ratio_fast env1 ga (path img) = (a1, g1)"
    by (cases "get_aspect_ratio_fast env1 ga (path img)")
  obtain a2 g2 where r2: "get_aspect_ratio_fast env2 gb (path img) = (a2, g2)"
    by (cases "get_aspect_ratio_fast env2 gb (path img)")
  from s have c: "aspect_cache ga = aspect_cache gb" by (simp add: same_layout_state_def)
  from resolver_related[OF c d] have a: "a1 = a2" and ac: "aspect_cache g1 = aspect_cache g2"
    by (simp_all add: r1 r2)
  have f1: "gap g1 = gap ga" "image_positions g1 = image_positions ga"
    using resolver_keeps_fields[of env1 ga "path img"] by (simp_all add: r1)
  have f2: "gap g2 = gap gb" "image_positions g2 = image_positions gb"
    using resolver_keeps_fields[of env2 gb "path img"] by (simp_all add: r2)
  show ?thesis
    using s a ac f1 f2
    by (cases "py_int_div w a2") (simp_all add: place_image_def r1 r2 Let_def same_layout_state_def)
qed

lemma layout_loop_related:
  "same_layout_state ga gb \<Longrightarrow>
   \<forall>img \<in> set imgs. aspect_cache ga (path img) = None \<longrightarrow>
      image_open env1 (path img) = image_open env2 (path img) \<Longrightarrow>
   (\<exists>e. layout_loop env1 w imgs (hs, ga) = Inl e \<and> layout_loop env2 w imgs (hs, gb) = Inl e)
   \<or> (\<exists>hs' ga' gb'. layout_loop env1 w imgs (hs, ga) = Inr (hs', ga')
          \<and> layout_loop env2 w imgs (hs, gb) = Inr (hs', gb') \<and> same_layout_state ga' gb')"
proof (induction imgs arbitrary: hs ga gb)
  case Nil
  then show ?case by simp
next
  case (Cons img imgs)
  have d: "aspect_cache ga (path img) = None \<longrightarrow> image_open env1 (path img) = image_open env2 (path img)"
    using Cons.prems(2) by simp
  from place_image_related[OF Cons.prems(1) d, of w hs]
  show ?case
  proof (elim disjE exE conjE)
    fix e
    assume "place_image env1 w img (hs, ga) = Inl e" "place_image env2 w img (hs, gb) = Inl e"
    then show ?thesis by simp
  next
    fix hs' ga' gb'
    assume p1: "place_image env1 w img (hs, ga) = Inr (hs', ga')"
      and p2: "place_image env2 w img (hs, gb) = Inr (hs', gb')"
      and s': "same_layout_state ga' gb'"
    have "\<forall>i \<in> set imgs. aspect_cache ga' (path i) = None \<longrightarrow>
        image_open env1 (path i) = image_open env2 (path i)"
      using Cons.prems(2) place_image_cache_grows[OF p1] by auto
    from Cons.IH[OF s' this, of hs'] show ?thesis by (simp add: p1 p2)
  qed
qed

text \<open>
  C9, as the code has it.  Two runs of \<open>calculate_layout\<close> whose galleries hold the same
  ordered image list, the same memoized aspect ratios, the same column count and the same
  gap, on canvases of the same width (wide enough for a layout to be computed), and whose
  decoders answer alike for every listed path that is not memoized, produce the same
  position map and the same scroll region, total height included, or raise the same
  exception, whatever else differs in the two states and whatever the decoders would answer
  for memoized paths.
\<close>

theorem layout_deterministic:
  assumes imgs: "filtered_images ga = filtered_images gb"
    and memo: "aspect_cache ga = aspect_cache gb"
    and cols: "layout_cols ga = layout_cols gb"
    and wd: "winfo_width cva = winfo_width cvb"
    and gp: "gap ga = gap gb"
    and dec: "\<forall>img \<in> set (filtered_images ga). aspect_cache ga (path img) = None \<longrightarrow>
      image_open enva (path img) = image_open envb (path img)"
    and wide: "1 < winfo_width cva"
  shows "layout_output (calculate_layout cva enva ga) = layout_output (calculate_layout cvb envb gb)"
proof -
  have w: "column_width cva ga = column_width cvb gb"
    by (simp add: column_width_def cols wd gp)
  have h: "initial_heights ga = initial_heights gb"
    by (simp add: initial_heights_def cols gp)
  have s: "same_layout_state (ga\<lparr>image_positions := []\<rparr>) (gb\<lparr>image_positions := []\<rparr>)"
    by (simp add: same_layout_state_def memo gp)
  have d: "\<forall>img \<in> set (filtered_images ga).
      aspect_cache (ga\<lparr>image_positions := []\<rparr>) (path img) = None \<longrightarrow>
      image_open enva (path img) = image_open envb (path img)"
    using dec by simp
  from layout_loop_related[OF s d, of "column_width cva ga" "initial_heights ga"]
  show ?thesis
    using wide wd
    by (auto simp: layout_output_def calculate_layout_def Let_def w h imgs[symmetric] gp same_layout_state_def)
qed

theorem layout_deterministic_witness:
  "image_open strips_pil ''a.png'' \<noteq> image_open example_pil ''a.png''
   \<and> strips_laid_out \<noteq> strips_other_view \<and> window \<noteq> short_window
   \<and> layout_output (calculate_layout window strips_pil strips_laid_out)
       = layout_output (calculate_layout short_window example_pil strips_other_view)"
proof -
  have a: "filtered_images strips_laid_out = filtered_images strips_other_view"
    "aspect_cache strips_laid_out = aspect_cache strips_other_view"
    "layout_cols strips_laid_out = layout_cols strips_other_view"
    "winfo_width window = winfo_width short_window"
    "gap strips_laid_out = gap strips_other_view"
    "1 < winfo_width window"
    by (simp_all add: strips_other_view_def layout_cols_def window_def short_window_def)
  have m: "\<forall>img \<in> set (filtered_images strips_laid_out).
      aspect_cache strips_laid_out (path img) = None \<longrightarrow>
      image_open strips_pil (path img) = image_open example_pil (path img)"
    by (simp add: strips_laid_out_def strips_def init_gallery_def mk_image_def)
  have d: "image_open strips_pil ''a.png'' \<noteq> image_open example_pil ''a.png''"
    "window \<noteq> short_window"
    by (simp_all add: strips_pil_def example_pil_def window_def short_window_def)
  have e: "pan_x strips_laid_out \<noteq> pan_x strips_other_view"
    by (simp add: strips_other_view_def strips_laid_out_def strips_def init_gallery_def)
  then have "strips_laid_out \<noteq> strips_other_view" by auto
  with layout_deterministic[OF a(1,2,3,4,5) m a(6)] d show ?thesis by simp
qed

lemma strips_layout_other_decoder:
  "calculate_layout window example_pil strips =
     Inr (strips\<lparr>
       aspect_cache := [''a.png'' \<mapsto> 2],
       aspect_decodes := [''a.png'', ''b.png'', ''c.png'', ''d.png''],
       image_positions := [(''a.png'', (4, 4, 261, 130)), (''b.png'', (269, 4, 261, 261)),
                           (''c.png'', (534, 4, 261, 261)), (''d.png'', (4, 138, 261, 261))],
       scrollregion := Some (0, 0, 800, 407)\<rparr>)"
  by (simp add: calculate_layout_def window_def strips_def example_pil_def init_gallery_def
      column_width_def initial_heights_def layout_cols_def get_aspect_ratio_fast_def
      place_image_def first_index_simps int_truediv_examples py_int_div_examples mk_image_def
      Let_def eval_nat_numeral)

text \<open>
  C9 as worded does not hold.  The same gallery (four listed images, none of them
  memoized, three columns, gap 4) is laid out twice on the same canvas; the image list, the
  memoized ratios, the column count, the canvas width and the gap are identical.  In the
  first run every file decodes to 100 by 400 pixels; in the second only the first file
  decodes, to 400 by 200.  The position maps and the total heights differ.
\<close>

theorem layout_depends_on_decoder:
  "aspect_cache strips ''a.png'' = None
   \<and> layout_output (calculate_layout window strips_pil strips) =
       Inr ([(''a.png'', (4, 4, 261, 1044)), (''b.png'', (269, 4, 261, 1044)),
             (''c.png'', (534, 4, 261, 1044)), (''d.png'', (4, 1052, 261, 1044))],
            Some (0, 0, 800, 2104))
   \<and> layout_output (calculate_layout window example_pil strips) =
       Inr ([(''a.png'', (4, 4, 261, 130)), (''b.png'', (269, 4, 261, 261)),
             (''c.png'', (534, 4, 261, 261)), (''d.png'', (4, 138, 261, 261))],
            Some (0, 0, 800, 407))
   \<and> layout_output (calculate_layout window strips_pil strips)
       \<noteq> layout_output (calculate_layout window example_pil strips)"
  unfolding strips_layout strips_layout_other_decoder
  by (simp add: layout_output_def strips_laid_out_def strips_def init_gallery_def)

end
